theory Spec2Isabelle
  imports Main "HOL-Library.Word"
begin

unbundle bit_operations_syntax

section \<open>Common types\<close>

type_synonym u8 = "8 word"
type_synonym u16 = "16 word"
type_synonym u32 = "32 word"
type_synonym u64 = "64 word"
type_synonym bstr = "u8 list"

text \<open>
  Exceptions are values. \<open>CorruptDataError\<close> is \<open>err::CorruptDataError\<close> with its message.
  \<open>EofError\<close>, \<open>InflateError\<close> and \<open>EncodingError\<close> are what the external collaborators
  (cursor, zlib, text conversion) raise. The last three constructors mark an access outside a
  buffer by the pointer-walking decompressor: the C++ behaviour is undefined there, and the
  model stops with the marker instead of inventing a value.
\<close>

datatype error =
    CorruptDataError string
  | EofError
  | InflateError
  | EncodingError
  | ReadPastInput
  | ReadOutsideOutput
  | WritePastOutput

definition bind_e :: "error + 'a \<Rightarrow> ('a \<Rightarrow> error + 'b) \<Rightarrow> error + 'b" where
  "bind_e m f = (case m of Inl e \<Rightarrow> Inl e | Inr x \<Rightarrow> f x)"

section \<open>LND decompression (fmt/kid/lnd\_file\_decoder.cc)\<close>

text \<open>
  The pointers of \<open>decompress_raw_data\<close> are indices: \<open>input_ptr\<close> into the input,
  \<open>output_ptr\<close> into the output buffer; \<open>output_end\<close> is the length of the output and
  \<open>input_end\<close> the length of the input.
\<close>

record lnd_state =
  input_ptr :: nat
  output_ptr :: nat
  output_buf :: bstr

text \<open>
  Modelled from the spec: the byte-string type \<open>bstr\<close> is declared outside src/;
  \<open>bstr output(size_orig)\<close> is taken to allocate \<open>size_orig\<close> zero bytes.
\<close>

definition bstr_alloc :: "nat \<Rightarrow> bstr" where
  "bstr_alloc n = replicate n 0"

text \<open>A read \<open>input_ptr[i]\<close>, a read \<open>output_ptr[-look_behind]\<close>, and the two forms of write.\<close>

definition input_at :: "bstr \<Rightarrow> nat \<Rightarrow> error + u8" where
  "input_at inp i = (if i < length inp then Inr (inp ! i) else Inl ReadPastInput)"

definition output_at :: "bstr \<Rightarrow> int \<Rightarrow> error + u8" where
  "output_at out i =
     (if 0 \<le> i \<and> i < int (length out) then Inr (out ! nat i) else Inl ReadOutsideOutput)"

definition put_output :: "lnd_state \<Rightarrow> u8 \<Rightarrow> error + lnd_state" where
  \<comment> \<open>\<open>*output_ptr++ = v\<close>\<close>
  "put_output st v =
     (if output_ptr st < length (output_buf st)
      then Inr (st\<lparr>output_buf := (output_buf st)[output_ptr st := v], output_ptr := output_ptr st + 1\<rparr>)
      else Inl WritePastOutput)"

definition add_output :: "lnd_state \<Rightarrow> u8 \<Rightarrow> error + lnd_state" where
  \<comment> \<open>\<open>*output_ptr++ += v\<close>, the sum truncated to a byte\<close>
  "add_output st v =
     (if output_ptr st < length (output_buf st)
      then Inr (st\<lparr>output_buf := (output_buf st)[output_ptr st := output_buf st ! output_ptr st + v],
                    output_ptr := output_ptr st + 1\<rparr>)
      else Inl WritePastOutput)"

text \<open>
  The optional length extension of fill-run and literal copy,
  \<open>if (byte & 0x20) n += *input_ptr++ << 5\<close> (lines 27-28 and 70-71).
\<close>

definition extended_count :: "bstr \<Rightarrow> u8 \<Rightarrow> nat \<Rightarrow> lnd_state \<Rightarrow> error + nat \<times> lnd_state" where
  "extended_count inp byte n st =
     (if byte AND 0x20 \<noteq> 0
      then bind_e (input_at inp (input_ptr st))
             (\<lambda>x. Inr (n + push_bit 5 (unat x), st\<lparr>input_ptr := input_ptr st + 1\<rparr>))
      else Inr (n, st))"

text \<open>Fill-run, lines 26 to 35. The loop reads \<open>*input_ptr\<close> at each write without advancing.\<close>

fun fill_loop :: "bstr \<Rightarrow> nat \<Rightarrow> lnd_state \<Rightarrow> error + lnd_state" where
  "fill_loop inp 0 st = Inr st"
| "fill_loop inp (Suc k) st =
     (if output_ptr st \<ge> length (output_buf st) then Inr st
      else bind_e (input_at inp (input_ptr st))
             (\<lambda>v. bind_e (put_output st v) (fill_loop inp k)))"

definition fill_run :: "bstr \<Rightarrow> u8 \<Rightarrow> lnd_state \<Rightarrow> error + lnd_state" where
  "fill_run inp byte st =
     bind_e (extended_count inp byte (unat (byte AND 0x1F) + 2) st)
       (\<lambda>(repetitions, st1).
          bind_e (fill_loop inp repetitions st1)
            (\<lambda>st2. Inr (st2\<lparr>input_ptr := input_ptr st2 + 1\<rparr>)))"

text \<open>
  Back-reference, lines 39 to 49. \<open>tmp\<close> is read before the output-full test, as in the source.
\<close>

fun copy_loop :: "int \<Rightarrow> nat \<Rightarrow> lnd_state \<Rightarrow> error + lnd_state" where
  "copy_loop look_behind 0 st = Inr st"
| "copy_loop look_behind (Suc k) st =
     bind_e (output_at (output_buf st) (int (output_ptr st) - look_behind))
       (\<lambda>tmp. if output_ptr st \<ge> length (output_buf st) then Inr st
               else bind_e (put_output st tmp) (copy_loop look_behind k))"

definition back_reference :: "bstr \<Rightarrow> u8 \<Rightarrow> lnd_state \<Rightarrow> error + lnd_state" where
  "back_reference inp byte st =
     bind_e (input_at inp (input_ptr st))
       (\<lambda>x. let sz = unat (drop_bit 2 byte AND 0xF) + 2;
                look_behind = int (push_bit 8 (unat (byte AND 3))) + int (unat x) + 1;
                look_behind = (if look_behind < 0 then 0 else look_behind)
            in copy_loop look_behind sz (st\<lparr>input_ptr := input_ptr st + 1\<rparr>))"

text \<open>
  Additive blend, lines 56 to 65. The inner loop runs \<open>i\<close> over \<open>range(size)\<close>; its
  \<open>break\<close> leaves the inner loop only, so the outer loop still runs every repetition.
\<close>

fun blend_inner :: "bstr \<Rightarrow> nat \<Rightarrow> nat \<Rightarrow> lnd_state \<Rightarrow> error + lnd_state" where
  "blend_inner inp i 0 st = Inr st"
| "blend_inner inp i (Suc k) st =
     (if output_ptr st \<ge> length (output_buf st) then Inr st
      else bind_e (input_at inp (input_ptr st + i))
             (\<lambda>w. bind_e (add_output st w) (blend_inner inp (i + 1) k)))"

fun blend_outer :: "bstr \<Rightarrow> nat \<Rightarrow> nat \<Rightarrow> lnd_state \<Rightarrow> error + lnd_state" where
  "blend_outer inp sz 0 st = Inr st"
| "blend_outer inp sz (Suc r) st = bind_e (blend_inner inp 0 sz st) (blend_outer inp sz r)"

definition additive_blend :: "bstr \<Rightarrow> u8 \<Rightarrow> lnd_state \<Rightarrow> error + lnd_state" where
  "additive_blend inp byte st =
     bind_e (input_at inp (input_ptr st))
       (\<lambda>x. let repetitions = unat x + 1;
                sz = unat (byte AND 0x3F) + 2
            in bind_e (blend_outer inp sz repetitions (st\<lparr>input_ptr := input_ptr st + 1\<rparr>))
                 (\<lambda>st2. Inr (st2\<lparr>input_ptr := input_ptr st2 + sz\<rparr>)))"

text \<open>Literal copy, lines 69 to 77.\<close>

fun literal_loop :: "bstr \<Rightarrow> nat \<Rightarrow> lnd_state \<Rightarrow> error + lnd_state" where
  "literal_loop inp 0 st = Inr st"
| "literal_loop inp (Suc k) st =
     (if output_ptr st \<ge> length (output_buf st) then Inr st
      else bind_e (input_at inp (input_ptr st))
             (\<lambda>v. bind_e (put_output (st\<lparr>input_ptr := input_ptr st + 1\<rparr>) v)
                    (literal_loop inp k)))"

definition literal_copy :: "bstr \<Rightarrow> u8 \<Rightarrow> lnd_state \<Rightarrow> error + lnd_state" where
  "literal_copy inp byte st =
     bind_e (extended_count inp byte (unat (byte AND 0x1F) + 1) st)
       (\<lambda>(sz, st1). literal_loop inp sz st1)"

text \<open>The body of the \<open>while\<close> loop after \<open>byte = *input_ptr++\<close>: the dispatch on bits 7 and 6.\<close>

definition decode_op :: "bstr \<Rightarrow> u8 \<Rightarrow> lnd_state \<Rightarrow> error + lnd_state" where
  "decode_op inp byte st =
     (if byte AND 0x80 \<noteq> 0
      then (if byte AND 0x40 \<noteq> 0 then fill_run inp byte st else back_reference inp byte st)
      else (if byte AND 0x40 \<noteq> 0 then additive_blend inp byte st else literal_copy inp byte st))"

lemma bind_e_simps [simp]:
  "bind_e (Inl e) f = Inl e"
  "bind_e (Inr x) f = f x"
  by (simp_all add: bind_e_def)

lemma bind_e_cong [fundef_cong]:
  "m = m' \<Longrightarrow> (\<And>x. m' = Inr x \<Longrightarrow> f x = f' x) \<Longrightarrow> bind_e m f = bind_e m' f'"
  by (cases m') simp_all

lemma bind_e_Inr_iff: "bind_e m f = Inr y \<longleftrightarrow> (\<exists>x. m = Inr x \<and> f x = Inr y)"
  by (cases m) simp_all

text \<open>
  What every loop and operation keeps: pointers never move backwards, the buffer keeps its
  length, \<open>output_ptr\<close> stays inside it, and no byte at or after the new \<open>output_ptr\<close> changes.
\<close>

definition step_ok :: "lnd_state \<Rightarrow> lnd_state \<Rightarrow> bool" where
  "step_ok st st' \<longleftrightarrow>
     input_ptr st \<le> input_ptr st' \<and> output_ptr st \<le> output_ptr st' \<and>
     length (output_buf st') = length (output_buf st) \<and>
     (output_ptr st \<le> length (output_buf st) \<longrightarrow> output_ptr st' \<le> length (output_buf st)) \<and>
     (\<forall>i. output_ptr st' \<le> i \<longrightarrow> output_buf st' ! i = output_buf st ! i)"

lemma step_ok_refl [simp]: "step_ok st st"
  by (simp add: step_ok_def)

lemma step_ok_trans: "step_ok a b \<Longrightarrow> step_ok b c \<Longrightarrow> step_ok a c"
  by (auto simp: step_ok_def)

lemma put_output_ok: "put_output st v = Inr st' \<Longrightarrow> step_ok st st'"
  by (auto simp: put_output_def step_ok_def split: if_splits)

lemma add_output_ok: "add_output st v = Inr st' \<Longrightarrow> step_ok st st'"
  by (auto simp: add_output_def step_ok_def split: if_splits)

lemma input_ptr_update_ok: "step_ok st (st\<lparr>input_ptr := input_ptr st + n\<rparr>)"
  by (simp add: step_ok_def)

lemma fill_loop_ok: "fill_loop inp k st = Inr st' \<Longrightarrow> step_ok st st'"
proof (induction k arbitrary: st)
  case 0
  then show ?case by simp
next
  case (Suc k)
  show ?case
  proof (cases "output_ptr st \<ge> length (output_buf st)")
    case True
    with Suc.prems show ?thesis by simp
  next
    case False
    with Suc.prems obtain v st1 where
      p: "put_output st v = Inr st1" and r: "fill_loop inp k st1 = Inr st'"
      by (auto simp: bind_e_Inr_iff)
    show ?thesis
      using put_output_ok [OF p] Suc.IH [OF r] by (rule step_ok_trans)
  qed
qed

lemma copy_loop_ok: "copy_loop lb k st = Inr st' \<Longrightarrow> step_ok st st'"
proof (induction k arbitrary: st)
  case 0
  then show ?case by simp
next
  case (Suc k)
  show ?case
  proof (cases "output_ptr st \<ge> length (output_buf st)")
    case True
    with Suc.prems show ?thesis by (auto simp: bind_e_Inr_iff)
  next
    case False
    with Suc.prems obtain v st1 where
      p: "put_output st v = Inr st1" and r: "copy_loop lb k st1 = Inr st'"
      by (auto simp: bind_e_Inr_iff)
    show ?thesis
      using put_output_ok [OF p] Suc.IH [OF r] by (rule step_ok_trans)
  qed
qed

lemma blend_inner_ok: "blend_inner inp i k st = Inr st' \<Longrightarrow> step_ok st st'"
proof (induction k arbitrary: st i)
  case 0
  then show ?case by simp
next
  case (Suc k)
  show ?case
  proof (cases "output_ptr st \<ge> length (output_buf st)")
    case True
    with Suc.prems show ?thesis by simp
  next
    case False
    with Suc.prems obtain w st1 where
      p: "add_output st w = Inr st1" and r: "blend_inner inp (i + 1) k st1 = Inr st'"
      by (auto simp: bind_e_Inr_iff)
    show ?thesis
      using add_output_ok [OF p] Suc.IH [OF r] by (rule step_ok_trans)
  qed
qed

lemma blend_outer_ok: "blend_outer inp sz r st = Inr st' \<Longrightarrow> step_ok st st'"
proof (induction r arbitrary: st)
  case 0
  then show ?case by simp
next
  case (Suc r)
  then obtain st1 where
    a: "blend_inner inp 0 sz st = Inr st1" and b: "blend_outer inp sz r st1 = Inr st'"
    by (auto simp: bind_e_Inr_iff)
  show ?case
    using blend_inner_ok [OF a] Suc.IH [OF b] by (rule step_ok_trans)
qed

lemma literal_loop_ok: "literal_loop inp k st = Inr st' \<Longrightarrow> step_ok st st'"
proof (induction k arbitrary: st)
  case 0
  then show ?case by simp
next
  case (Suc k)
  show ?case
  proof (cases "output_ptr st \<ge> length (output_buf st)")
    case True
    with Suc.prems show ?thesis by simp
  next
    case False
    with Suc.prems obtain v st1 where
      p: "put_output (st\<lparr>input_ptr := input_ptr st + 1\<rparr>) v = Inr st1"
      and r: "literal_loop inp k st1 = Inr st'"
      by (auto simp: bind_e_Inr_iff)
    have "step_ok st st1"
      using input_ptr_update_ok put_output_ok [OF p] by (rule step_ok_trans)
    then show ?thesis
      using Suc.IH [OF r] by (rule step_ok_trans)
  qed
qed

lemma extended_count_ok: "extended_count inp byte n st = Inr (m, st1) \<Longrightarrow> step_ok st st1"
  by (auto simp: extended_count_def bind_e_Inr_iff step_ok_def split: if_splits)

lemma fill_run_ok:
  assumes "fill_run inp byte st = Inr st'"
  shows "step_ok st st'"
proof -
  from assms obtain reps st1 st2 where
    x: "extended_count inp byte (unat (byte AND 0x1F) + 2) st = Inr (reps, st1)"
    and l: "fill_loop inp reps st1 = Inr st2"
    and e: "st' = st2\<lparr>input_ptr := input_ptr st2 + 1\<rparr>"
    unfolding fill_run_def by (auto simp only: bind_e_Inr_iff prod.case sum.inject)
  from extended_count_ok [OF x] fill_loop_ok [OF l] have "step_ok st st2"
    by (rule step_ok_trans)
  then show ?thesis unfolding e using input_ptr_update_ok by (rule step_ok_trans)
qed

lemma back_reference_ok:
  assumes "back_reference inp byte st = Inr st'"
  shows "step_ok st st'"
proof -
  from assms obtain lb sz where
    l: "copy_loop lb sz (st\<lparr>input_ptr := input_ptr st + 1\<rparr>) = Inr st'"
    unfolding back_reference_def Let_def
    by (auto simp only: bind_e_Inr_iff)
  from input_ptr_update_ok copy_loop_ok [OF l] show ?thesis by (rule step_ok_trans)
qed

lemma additive_blend_ok:
  assumes "additive_blend inp byte st = Inr st'"
  shows "step_ok st st'"
proof -
  from assms obtain sz reps st2 where
    l: "blend_outer inp sz reps (st\<lparr>input_ptr := input_ptr st + 1\<rparr>) = Inr st2"
    and e: "st' = st2\<lparr>input_ptr := input_ptr st2 + sz\<rparr>"
    unfolding additive_blend_def Let_def
    by (auto simp only: bind_e_Inr_iff sum.inject)
  from input_ptr_update_ok blend_outer_ok [OF l] have "step_ok st st2" by (rule step_ok_trans)
  then show ?thesis unfolding e using input_ptr_update_ok by (rule step_ok_trans)
qed

lemma literal_copy_ok:
  assumes "literal_copy inp byte st = Inr st'"
  shows "step_ok st st'"
proof -
  from assms obtain sz st1 where
    x: "extended_count inp byte (unat (byte AND 0x1F) + 1) st = Inr (sz, st1)"
    and l: "literal_loop inp sz st1 = Inr st'"
    unfolding literal_copy_def by (auto simp only: bind_e_Inr_iff prod.case)
  from extended_count_ok [OF x] literal_loop_ok [OF l] show ?thesis by (rule step_ok_trans)
qed

lemma decode_op_ok: "decode_op inp byte st = Inr st' \<Longrightarrow> step_ok st st'"
  unfolding decode_op_def
  by (auto split: if_splits
           intro: fill_run_ok back_reference_ok additive_blend_ok literal_copy_ok)

text \<open>
  The \<open>while\<close> loop of lines 19 to 80. Each round consumes the control byte, so the distance
  of \<open>input_ptr\<close> to the end of the input decreases.
\<close>

function decompress_loop :: "bstr \<Rightarrow> lnd_state \<Rightarrow> error + lnd_state" where
  "decompress_loop inp st =
     (if output_ptr st < length (output_buf st) \<and> input_ptr st < length inp
      then bind_e (decode_op inp (inp ! input_ptr st) (st\<lparr>input_ptr := input_ptr st + 1\<rparr>))
             (decompress_loop inp)
      else Inr st)"
  by pat_completeness auto
termination
proof (relation "measure (\<lambda>(inp, st). length inp - input_ptr st)")
  show "wf (measure (\<lambda>(inp, st). length inp - input_ptr st))" by simp
next
  fix inp :: bstr and st st' :: lnd_state
  assume c: "output_ptr st < length (output_buf st) \<and> input_ptr st < length inp"
    and d: "decode_op inp (inp ! input_ptr st) (st\<lparr>input_ptr := input_ptr st + 1\<rparr>) = Inr st'"
  from decode_op_ok [OF d] have "input_ptr st + 1 \<le> input_ptr st'"
    by (simp add: step_ok_def)
  with c have "length inp - input_ptr st' < length inp - input_ptr st"
    by linarith
  then show "((inp, st'), (inp, st)) \<in> measure (\<lambda>(inp, st). length inp - input_ptr st)"
    by simp
qed

declare decompress_loop.simps [simp del]

text \<open>\<open>decompress_raw_data\<close>, lines 10 to 83: allocate, run the loop, return the whole buffer.\<close>

definition initial_state :: "nat \<Rightarrow> lnd_state" where
  "initial_state size_orig = \<lparr>input_ptr = 0, output_ptr = 0, output_buf = bstr_alloc size_orig\<rparr>"

definition decompress_raw_data :: "bstr \<Rightarrow> nat \<Rightarrow> error + bstr" where
  "decompress_raw_data inp size_orig =
     bind_e (decompress_loop inp (initial_state size_orig)) (\<lambda>st. Inr (output_buf st))"

section \<open>The binary cursor\<close>

text \<open>
  Modelled from the spec: the Binary Cursor (\<open>io::IO\<close>) is an external collaborator declared
  outside src/, "a sequential/random-access byte source supporting seek, skip, fixed-width
  little-endian integer reads, fixed-length reads, and read-to-end". A cursor is a buffer and
  a position in it; a seek, a skip or a read that would leave the buffer fails with
  \<open>EofError\<close>, and a write overwrites from the position and extends the buffer.
\<close>

record IO =
  buffer :: bstr
  pos :: nat

definition io_size :: "IO \<Rightarrow> nat" where
  "io_size io = length (buffer io)"

definition tell :: "IO \<Rightarrow> nat" where
  "tell io = pos io"

definition seek :: "IO \<Rightarrow> nat \<Rightarrow> error + IO" where
  "seek io offset = (if offset > io_size io then Inl EofError else Inr (io\<lparr>pos := offset\<rparr>))"

definition skip :: "IO \<Rightarrow> nat \<Rightarrow> error + IO" where
  "skip io n = (if pos io + n > io_size io then Inl EofError else Inr (io\<lparr>pos := pos io + n\<rparr>))"

definition read :: "IO \<Rightarrow> nat \<Rightarrow> error + bstr \<times> IO" where
  "read io n =
     (if pos io + n > io_size io then Inl EofError
      else Inr (take n (drop (pos io) (buffer io)), io\<lparr>pos := pos io + n\<rparr>))"

definition read_to_eof :: "IO \<Rightarrow> error + bstr \<times> IO" where
  "read_to_eof io = Inr (drop (pos io) (buffer io), io\<lparr>pos := io_size io\<rparr>)"

definition io_write :: "IO \<Rightarrow> bstr \<Rightarrow> IO" where
  "io_write io bs =
     io\<lparr>buffer := take (pos io) (buffer io) @ bs @ drop (pos io + length bs) (buffer io),
        pos := pos io + length bs\<rparr>"

text \<open>The value of a little-endian byte sequence.\<close>

definition le_nat :: "bstr \<Rightarrow> nat" where
  "le_nat bs = foldr (\<lambda>b acc. unat b + 256 * acc) bs 0"

definition read_u8 :: "IO \<Rightarrow> error + u8 \<times> IO" where
  "read_u8 io = bind_e (read io 1) (\<lambda>(bs, io'). Inr (word_of_nat (le_nat bs), io'))"

definition read_u16_le :: "IO \<Rightarrow> error + u16 \<times> IO" where
  "read_u16_le io = bind_e (read io 2) (\<lambda>(bs, io'). Inr (word_of_nat (le_nat bs), io'))"

definition read_u32_le :: "IO \<Rightarrow> error + u32 \<times> IO" where
  "read_u32_le io = bind_e (read io 4) (\<lambda>(bs, io'). Inr (word_of_nat (le_nat bs), io'))"

definition read_u64_le :: "IO \<Rightarrow> error + u64 \<times> IO" where
  "read_u64_le io = bind_e (read io 8) (\<lambda>(bs, io'). Inr (word_of_nat (le_nat bs), io'))"

text \<open>A decoded file: a name and a cursor over its content.\<close>

record File =
  name :: string
  io :: IO

section \<open>LND file decoder (fmt/kid/lnd\_file\_decoder.cc, lines 85 to 99)\<close>

definition magic :: bstr where
  \<comment> \<open>\<open>"lnd\x00"\<close>\<close>
  "magic = [0x6C, 0x6E, 0x64, 0x00]"

definition is_recognized_impl :: "File \<Rightarrow> error + bool \<times> File" where
  "is_recognized_impl file =
     bind_e (read (io file) (length magic)) (\<lambda>(bs, io'). Inr (bs = magic, file\<lparr>io := io'\<rparr>))"

definition decode_impl :: "File \<Rightarrow> error + File" where
  "decode_impl file =
     bind_e (seek (io file) (length magic)) (\<lambda>io1.
     bind_e (skip io1 4) (\<lambda>io2.
     bind_e (read_u32_le io2) (\<lambda>(size_orig, io3).
     bind_e (skip io3 4) (\<lambda>io4.
     bind_e (read_to_eof io4) (\<lambda>(data, io5).
     bind_e (decompress_raw_data data (unat size_orig)) (\<lambda>data'.
     Inr \<lparr>name = name file, io = \<lparr>buffer = data', pos = 0\<rparr>\<rparr>))))))"

section \<open>FSN filter (formats/arc/xp3\_archive/xp3\_filter\_fsn.cc)\<close>

text \<open>
  \<open>Xp3FilterFsn::decode\<close> reads the whole file into \<open>ptr\<close>, changes it and writes it back
  from position 0. The key argument has no name in the source.
\<close>

definition Xp3FilterFsn_decode :: "File \<Rightarrow> u32 \<Rightarrow> error + File" where
  "Xp3FilterFsn_decode file key =
     (let sz = io_size (io file) in
      bind_e (seek (io file) 0) (\<lambda>io1.
      bind_e (read io1 sz) (\<lambda>(ptr, io2).
      let ptr = map (\<lambda>b. b XOR 0x36) ptr;
          ptr = (if sz > 0x2ea29 then ptr[0x2ea29 := ptr ! 0x2ea29 XOR 3] else ptr);
          ptr = (if sz > 0x13 then ptr[0x13 := ptr ! 0x13 XOR 1] else ptr)
      in bind_e (seek io2 0) (\<lambda>io3. Inr (file\<lparr>io := io_write io3 ptr\<rparr>)))))"

section \<open>XP3 archive decoder (fmt/kirikiri/xp3\_archive\_decoder.cc)\<close>

record InfoChunk =
  flags :: u32
  file_size_original :: u64
  file_size_compressed :: u64
  info_name :: string

definition xp3_magic :: bstr where
  \<comment> \<open>\<open>"XP3\r\n\x20\x0A\x1A\x8B\x67\x01"\<close>, eleven bytes\<close>
  "xp3_magic = [0x58, 0x50, 0x33, 0x0D, 0x0A, 0x20, 0x0A, 0x1A, 0x8B, 0x67, 0x01]"

definition file_magic :: bstr where
  \<comment> \<open>\<open>"File"\<close>\<close>
  "file_magic = [0x46, 0x69, 0x6C, 0x65]"

definition adlr_magic :: bstr where
  \<comment> \<open>\<open>"adlr"\<close>\<close>
  "adlr_magic = [0x61, 0x64, 0x6C, 0x72]"

definition info_magic :: bstr where
  \<comment> \<open>\<open>"info"\<close>\<close>
  "info_magic = [0x69, 0x6E, 0x66, 0x6F]"

definition segm_magic :: bstr where
  \<comment> \<open>\<open>"segm"\<close>\<close>
  "segm_magic = [0x73, 0x65, 0x67, 0x6D]"

text \<open>
  The two library calls are parameters of the model: \<open>inflate\<close> stands for
  \<open>util::pack::zlib_inflate\<close> and \<open>convert\<close> for \<open>util::convert_encoding\<close> from UTF-16LE
  to UTF-8; \<open>None\<close> is their failure.
\<close>

definition zlib_inflate :: "(bstr \<Rightarrow> bstr option) \<Rightarrow> bstr \<Rightarrow> error + bstr" where
  "zlib_inflate inflate bs = (case inflate bs of None \<Rightarrow> Inl InflateError | Some out \<Rightarrow> Inr out)"

definition convert_encoding :: "(bstr \<Rightarrow> string option) \<Rightarrow> bstr \<Rightarrow> error + string" where
  "convert_encoding convert bs =
     (case convert bs of None \<Rightarrow> Inl EncodingError | Some s \<Rightarrow> Inr s)"

definition detect_version :: "IO \<Rightarrow> error + int \<times> IO" where
  "detect_version arc_io =
     (let old_pos = tell arc_io in
      bind_e (seek arc_io 19) (\<lambda>io1.
      bind_e (read_u32_le io1) (\<lambda>(x, io2).
      bind_e (seek io2 old_pos) (\<lambda>io3.
      Inr (if x = 1 then 2 else 1, io3)))))"

definition get_table_offset :: "IO \<Rightarrow> int \<Rightarrow> error + u64 \<times> IO" where
  "get_table_offset arc_io version =
     (if version = 1 then read_u64_le arc_io
      else bind_e (read_u64_le arc_io) (\<lambda>(additional_header_offset, io1).
           bind_e (read_u32_le io1) (\<lambda>(minor_version, io2).
           if minor_version \<noteq> 1 then Inl (CorruptDataError ''Unexpected XP3 version'')
           else bind_e (seek io2 (unat additional_header_offset)) (\<lambda>io3.
                bind_e (skip io3 1) (\<lambda>io4.
                bind_e (skip io4 8) (\<lambda>io5.
                read_u64_le io5))))))"

definition read_raw_table :: "(bstr \<Rightarrow> bstr option) \<Rightarrow> IO \<Rightarrow> error + IO \<times> IO" where
  \<comment> \<open>returns the table cursor and the archive cursor\<close>
  "read_raw_table inflate arc_io =
     bind_e (read_u8 arc_io) (\<lambda>(b, io1).
     let use_zlib = (b \<noteq> 0) in
     bind_e (read_u64_le io1) (\<lambda>(size_compressed, io2).
     bind_e (if use_zlib then read_u64_le io2 else Inr (size_compressed, io2)) (\<lambda>(size_original, io3).
     bind_e (read io3 (unat size_compressed)) (\<lambda>(data, io4).
     bind_e (if use_zlib then zlib_inflate inflate data else Inr data) (\<lambda>data'.
     Inr (\<lparr>buffer = data', pos = 0\<rparr>, io4))))))"

definition read_info_chunk :: "(bstr \<Rightarrow> string option) \<Rightarrow> IO \<Rightarrow> error + InfoChunk \<times> IO" where
  "read_info_chunk convert table_io =
     bind_e (read table_io (length info_magic)) (\<lambda>(m, t1).
     if m \<noteq> info_magic then Inl (CorruptDataError ''Expected INFO chunk'')
     else bind_e (read_u64_le t1) (\<lambda>(info_chunk_size, t2).
          bind_e (read_u32_le t2) (\<lambda>(fl, t3).
          bind_e (read_u64_le t3) (\<lambda>(orig, t4).
          bind_e (read_u64_le t4) (\<lambda>(comp, t5).
          bind_e (read_u16_le t5) (\<lambda>(file_name_size, t6).
          bind_e (read t6 (unat file_name_size * 2)) (\<lambda>(nm, t7).
          bind_e (convert_encoding convert nm) (\<lambda>s.
          Inr (\<lparr>flags = fl, file_size_original = orig, file_size_compressed = comp,
                 info_name = s\<rparr>, t7)))))))))"

lemma read_pos: "read c n = Inr (bs, c') \<Longrightarrow> buffer c' = buffer c \<and> pos c' = pos c + n"
  by (auto simp: read_def split: if_splits)

lemma read_u8_pos: "read_u8 c = Inr (x, c') \<Longrightarrow> buffer c' = buffer c \<and> pos c' = pos c + 1"
  by (auto simp: read_u8_def bind_e_Inr_iff dest: read_pos)

lemma read_u16_le_pos: "read_u16_le c = Inr (x, c') \<Longrightarrow> buffer c' = buffer c \<and> pos c' = pos c + 2"
  by (auto simp: read_u16_le_def bind_e_Inr_iff dest: read_pos)

lemma read_u32_le_pos: "read_u32_le c = Inr (x, c') \<Longrightarrow> buffer c' = buffer c \<and> pos c' = pos c + 4"
  by (auto simp: read_u32_le_def bind_e_Inr_iff dest: read_pos)

lemma read_u64_le_pos: "read_u64_le c = Inr (x, c') \<Longrightarrow> buffer c' = buffer c \<and> pos c' = pos c + 8"
  by (auto simp: read_u64_le_def bind_e_Inr_iff dest: read_pos)

text \<open>
  The loop of \<open>read_data_from_segm_chunk\<close>, lines 97 to 116. Each round reads the 28 bytes
  of one record from the table, so the distance to the end of the chunk decreases.
\<close>

function segm_loop ::
  "(bstr \<Rightarrow> bstr option) \<Rightarrow> u64 \<Rightarrow> nat \<Rightarrow> IO \<Rightarrow> IO \<Rightarrow> bstr \<Rightarrow> error + bstr \<times> IO \<times> IO" where
  "segm_loop inflate segm_chunk_size initial_pos table_io arc_io full_data =
     (if unat segm_chunk_size > tell table_io - initial_pos
      then bind_e (read_u32_le table_io) (\<lambda>(segm_flags, t1).
           bind_e (read_u64_le t1) (\<lambda>(data_offset, t2).
           bind_e (read_u64_le t2) (\<lambda>(data_size_original, t3).
           bind_e (read_u64_le t3) (\<lambda>(data_size_compressed, t4).
           bind_e (seek arc_io (unat data_offset)) (\<lambda>a1.
           if segm_flags AND 7 \<noteq> 0
           then bind_e (read a1 (unat data_size_compressed)) (\<lambda>(data_compressed, a2).
                bind_e (zlib_inflate inflate data_compressed) (\<lambda>data_uncompressed.
                segm_loop inflate segm_chunk_size initial_pos t4 a2
                  (full_data @ data_uncompressed)))
           else bind_e (read a1 (unat data_size_original)) (\<lambda>(d, a2).
                segm_loop inflate segm_chunk_size initial_pos t4 a2 (full_data @ d)))))))
      else Inr (full_data, table_io, arc_io))"
  by pat_completeness auto
termination
proof (relation "measure (\<lambda>(inflate, segm_chunk_size, initial_pos, table_io, arc_io, full_data).
                    unat segm_chunk_size + initial_pos - pos table_io)", goal_cases)
  case 1
  show ?case by simp
next
  case (2 inflate segm_chunk_size initial_pos table_io arc_io full_data x1 segm_flags t1 x2
        data_offset t2 x3 data_size_original t3 x4 data_size_compressed t4)
  then have "pos t4 = pos table_io + 28"
    by (auto dest!: read_u32_le_pos read_u64_le_pos)
  with 2(1) show ?case by (simp add: tell_def)
next
  case (3 inflate segm_chunk_size initial_pos table_io arc_io full_data x1 segm_flags t1 x2
        data_offset t2 x3 data_size_original t3 x4 data_size_compressed t4)
  then have "pos t4 = pos table_io + 28"
    by (auto dest!: read_u32_le_pos read_u64_le_pos)
  with 3(1) show ?case by (simp add: tell_def)
qed

declare segm_loop.simps [simp del]

definition read_data_from_segm_chunk ::
  "(bstr \<Rightarrow> bstr option) \<Rightarrow> IO \<Rightarrow> IO \<Rightarrow> error + bstr \<times> IO \<times> IO" where
  "read_data_from_segm_chunk inflate table_io arc_io =
     bind_e (read table_io (length segm_magic)) (\<lambda>(m, t1).
     if m \<noteq> segm_magic then Inl (CorruptDataError ''Expected SEGM chunk'')
     else bind_e (read_u64_le t1) (\<lambda>(segm_chunk_size, t2).
          if unat segm_chunk_size mod 28 \<noteq> 0
          then Inl (CorruptDataError ''Unexpected SEGM chunk size'')
          else segm_loop inflate segm_chunk_size (tell t2) t2 arc_io []))"

definition read_key_from_adlr_chunk :: "IO \<Rightarrow> error + u32 \<times> IO" where
  "read_key_from_adlr_chunk table_io =
     bind_e (read table_io (length adlr_magic)) (\<lambda>(m, t1).
     if m \<noteq> adlr_magic then Inl (CorruptDataError ''Expected ADLR chunk'')
     else bind_e (read_u64_le t1) (\<lambda>(adlr_chunk_size, t2).
          if adlr_chunk_size \<noteq> 4 then Inl (CorruptDataError ''Unexpected ADLR chunk size'')
          else read_u32_le t2))"

definition read_file ::
  "(bstr \<Rightarrow> bstr option) \<Rightarrow> (bstr \<Rightarrow> string option) \<Rightarrow> IO \<Rightarrow> IO \<Rightarrow>
     (bstr \<Rightarrow> u32 \<Rightarrow> bstr) option \<Rightarrow> error + File \<times> IO \<times> IO" where
  \<comment> \<open>returns the file, the table cursor and the archive cursor\<close>
  "read_file inflate convert arc_io table_io filter_func =
     bind_e (read table_io (length file_magic)) (\<lambda>(m, t1).
     if m \<noteq> file_magic then Inl (CorruptDataError ''Expected FILE chunk'')
     else bind_e (read_u64_le t1) (\<lambda>(file_chunk_size, t2).
          let file_chunk_start_offset = tell t2 in
          bind_e (read_info_chunk convert t2) (\<lambda>(info_chunk, t3).
          bind_e (read_data_from_segm_chunk inflate t3 arc_io) (\<lambda>(data, t4, a1).
          bind_e (read_key_from_adlr_chunk t4) (\<lambda>(key, t5).
          if tell t5 - file_chunk_start_offset \<noteq> unat file_chunk_size
          then Inl (CorruptDataError ''Unexpected file data size'')
          else let data' = (case filter_func of None \<Rightarrow> data | Some f \<Rightarrow> f data key)
               in Inr (\<lparr>name = info_name info_chunk,
                         io = io_write \<lparr>buffer = [], pos = 0\<rparr> data'\<rparr>, t5, a1))))))"

lemma segm_loop_pos:
  "segm_loop inflate sz initial_pos table_io arc_io acc = Inr (d, t', a') \<Longrightarrow>
     buffer t' = buffer table_io \<and> pos table_io \<le> pos t' \<and> buffer a' = buffer arc_io"
proof (induction inflate sz initial_pos table_io arc_io acc rule: segm_loop.induct)
  case (1 inflate segm_chunk_size initial_pos table_io arc_io full_data)
  show ?case
  proof (cases "unat segm_chunk_size > tell table_io - initial_pos")
    case False
    with "1.prems" show ?thesis
      by (simp add: segm_loop.simps [of inflate segm_chunk_size initial_pos table_io])
  next
    case True
    from "1.prems" True obtain segm_flags t1 data_offset t2 data_size_original t3
      data_size_compressed t4 a1 where
      r1: "read_u32_le table_io = Inr (segm_flags, t1)"
      and r2: "read_u64_le t1 = Inr (data_offset, t2)"
      and r3: "read_u64_le t2 = Inr (data_size_original, t3)"
      and r4: "read_u64_le t3 = Inr (data_size_compressed, t4)"
      and s: "seek arc_io (unat data_offset) = Inr a1"
      and rest: "(if segm_flags AND 7 \<noteq> 0
           then bind_e (read a1 (unat data_size_compressed)) (\<lambda>(data_compressed, a2).
                bind_e (zlib_inflate inflate data_compressed) (\<lambda>data_uncompressed.
                segm_loop inflate segm_chunk_size initial_pos t4 a2
                  (full_data @ data_uncompressed)))
           else bind_e (read a1 (unat data_size_original)) (\<lambda>(d, a2).
                segm_loop inflate segm_chunk_size initial_pos t4 a2 (full_data @ d))) =
           Inr (d, t', a')"
      by (auto simp: segm_loop.simps [of inflate segm_chunk_size initial_pos table_io]
            bind_e_Inr_iff)
    from r1 r2 r3 r4 have t4: "buffer t4 = buffer table_io" "pos t4 = pos table_io + 28"
      by (auto dest!: read_u32_le_pos read_u64_le_pos)
    from s have a1: "buffer a1 = buffer arc_io" by (auto simp: seek_def split: if_splits)
    show ?thesis
    proof (cases "segm_flags AND 7 \<noteq> 0")
      case z: True
      with rest obtain data_compressed a2 data_uncompressed where
        q1: "read a1 (unat data_size_compressed) = Inr (data_compressed, a2)"
        and q2: "zlib_inflate inflate data_compressed = Inr data_uncompressed"
        and q3: "segm_loop inflate segm_chunk_size initial_pos t4 a2
                  (full_data @ data_uncompressed) = Inr (d, t', a')"
        by (auto simp: bind_e_Inr_iff)
      from "1.IH"(1) [OF True r1 refl r2 refl r3 refl r4 refl s z q1 refl q2 q3]
        read_pos [OF q1] t4 a1
      show ?thesis by simp
    next
      case z: False
      with rest obtain dd a2 where
        q1: "read a1 (unat data_size_original) = Inr (dd, a2)"
        and q3: "segm_loop inflate segm_chunk_size initial_pos t4 a2 (full_data @ dd) =
                   Inr (d, t', a')"
        by (auto simp: bind_e_Inr_iff)
      from "1.IH"(2) [OF True r1 refl r2 refl r3 refl r4 refl s z q1 refl q3]
        read_pos [OF q1] t4 a1
      show ?thesis by simp
    qed
  qed
qed

lemma read_info_chunk_pos:
  "read_info_chunk convert table_io = Inr (i, t') \<Longrightarrow>
     buffer t' = buffer table_io \<and> pos table_io < pos t'"
  unfolding read_info_chunk_def
  by (auto simp: bind_e_Inr_iff split: if_splits
           dest!: read_pos read_u16_le_pos read_u32_le_pos read_u64_le_pos)

lemma read_data_from_segm_chunk_pos:
  "read_data_from_segm_chunk inflate table_io arc_io = Inr (d, t', a') \<Longrightarrow>
     buffer t' = buffer table_io \<and> pos table_io < pos t' \<and> buffer a' = buffer arc_io"
  unfolding read_data_from_segm_chunk_def
  by (auto simp: bind_e_Inr_iff split: if_splits
           dest!: read_pos read_u64_le_pos segm_loop_pos)

lemma read_key_from_adlr_chunk_pos:
  "read_key_from_adlr_chunk table_io = Inr (k, t') \<Longrightarrow>
     buffer t' = buffer table_io \<and> pos table_io < pos t'"
  unfolding read_key_from_adlr_chunk_def
  by (auto simp: bind_e_Inr_iff split: if_splits
           dest!: read_pos read_u32_le_pos read_u64_le_pos)

lemma read_file_pos:
  "read_file inflate convert arc_io table_io filter_func = Inr (f, t', a') \<Longrightarrow>
     buffer t' = buffer table_io \<and> pos table_io < pos t' \<and> buffer a' = buffer arc_io"
  unfolding read_file_def Let_def
  by (auto simp: bind_e_Inr_iff split: if_splits
           dest!: read_pos read_u64_le_pos read_info_chunk_pos read_data_from_segm_chunk_pos
                  read_key_from_adlr_chunk_pos)

text \<open>
  The loop of \<open>unpack_internal\<close>, lines 203 and 204. The sink \<open>saver\<close> is the list of the
  files saved so far; an exception leaves it as it is.
\<close>

function unpack_loop ::
  "(bstr \<Rightarrow> bstr option) \<Rightarrow> (bstr \<Rightarrow> string option) \<Rightarrow> (bstr \<Rightarrow> u32 \<Rightarrow> bstr) option \<Rightarrow>
     IO \<Rightarrow> IO \<Rightarrow> File list \<Rightarrow> File list \<times> error option" where
  "unpack_loop inflate convert filter_func arc_io table_io saver =
     (if tell table_io < io_size table_io
      then (case read_file inflate convert arc_io table_io filter_func of
              Inl e \<Rightarrow> (saver, Some e)
            | Inr (f, table_io', arc_io') \<Rightarrow>
                unpack_loop inflate convert filter_func arc_io' table_io' (saver @ [f]))
      else (saver, None))"
  by pat_completeness auto
termination
proof (relation "measure (\<lambda>(inflate, convert, filter_func, arc_io, table_io, saver).
                    io_size table_io - pos table_io)", goal_cases)
  case 1
  show ?case by simp
next
  case (2 inflate convert filter_func arc_io table_io saver x f y table_io' arc_io')
  then have "read_file inflate convert arc_io table_io filter_func = Inr (f, table_io', arc_io')"
    by simp
  from read_file_pos [OF this] 2(1) show ?case by (auto simp: tell_def io_size_def)
qed

declare unpack_loop.simps [simp del]

definition unpack_internal ::
  "(bstr \<Rightarrow> bstr option) \<Rightarrow> (bstr \<Rightarrow> string option) \<Rightarrow> (bstr \<Rightarrow> u32 \<Rightarrow> bstr) option \<Rightarrow>
     File \<Rightarrow> File list \<times> error option" where
  "unpack_internal inflate convert filter_func arc_file =
     (case bind_e (skip (io arc_file) (length xp3_magic)) (\<lambda>a1.
           bind_e (detect_version a1) (\<lambda>(version, a2).
           bind_e (get_table_offset a2 version) (\<lambda>(table_offset, a3).
           bind_e (seek a3 (unat table_offset)) (\<lambda>a4.
           read_raw_table inflate a4)))) of
        Inl e \<Rightarrow> ([], Some e)
      | Inr (table_io, a5) \<Rightarrow> unpack_loop inflate convert filter_func a5 table_io [])"

section \<open>Definitions used to state the claims\<close>

text \<open>The run length a fill-run encodes: the count field, plus the extension byte shifted.\<close>

definition fill_run_length :: "bstr \<Rightarrow> u8 \<Rightarrow> lnd_state \<Rightarrow> nat" where
  "fill_run_length inp byte st =
     unat (byte AND 0x1F) + 2 +
     (if byte AND 0x20 \<noteq> 0 then push_bit 5 (unat (inp ! input_ptr st)) else 0)"

text \<open>The length a literal copy encodes, likewise.\<close>

definition literal_length :: "bstr \<Rightarrow> u8 \<Rightarrow> lnd_state \<Rightarrow> nat" where
  "literal_length inp byte st =
     unat (byte AND 0x1F) + 1 +
     (if byte AND 0x20 \<noteq> 0 then push_bit 5 (unat (inp ! input_ptr st)) else 0)"

text \<open>
  The errors that stand for a read outside a buffer.
\<close>

definition read_fault :: "error \<Rightarrow> bool" where
  "read_fault e \<longleftrightarrow> e = ReadPastInput \<or> e = ReadOutsideOutput"

text \<open>
  Well-formed input, after the table of operations in the spec. \<open>op_extent inp ip\<close> looks
  at the operation whose control byte is at \<open>ip\<close>: all its operand bytes must lie inside
  the input (the extension byte and the value byte of a fill-run, the distance byte of a
  back-reference, the count byte and the whole window of an additive blend, the extension byte
  and all the literal bytes of a literal copy). It returns the position of the next control
  byte and the number of output bytes the operation encodes. \<open>parse_op inp ip opos\<close> asks
  in addition that a back-reference met when \<open>opos\<close> bytes of output have been produced
  does not reach before the start of the output. An input has its operands present, or is
  well-formed, when it is a sequence of such operations; the expected output size plays no
  part.
\<close>

definition op_extent :: "bstr \<Rightarrow> nat \<Rightarrow> (nat \<times> nat) option" where
  "op_extent inp ip =
     (let byte = inp ! ip;
          ext = (if byte AND 0x20 \<noteq> 0 then 1 else 0 :: nat)
      in if byte AND 0x80 \<noteq> 0
         then if byte AND 0x40 \<noteq> 0
              then (if ip + ext + 1 < length inp
                    then Some (ip + ext + 2,
                               unat (byte AND 0x1F) + 2 +
                               (if byte AND 0x20 \<noteq> 0 then push_bit 5 (unat (inp ! (ip + 1))) else 0))
                    else None)
              else (if ip + 1 < length inp
                    then Some (ip + 2, unat (drop_bit 2 byte AND 0xF) + 2)
                    else None)
         else if byte AND 0x40 \<noteq> 0
              then (if ip + 1 + (unat (byte AND 0x3F) + 2) < length inp
                    then Some (ip + 2 + (unat (byte AND 0x3F) + 2),
                               (unat (inp ! (ip + 1)) + 1) * (unat (byte AND 0x3F) + 2))
                    else None)
              else (if ip + ext < length inp \<and>
                       ip + ext + (unat (byte AND 0x1F) + 1 +
                         (if byte AND 0x20 \<noteq> 0 then push_bit 5 (unat (inp ! (ip + 1))) else 0))
                         < length inp
                    then Some (ip + ext + 1 + (unat (byte AND 0x1F) + 1 +
                                 (if byte AND 0x20 \<noteq> 0 then push_bit 5 (unat (inp ! (ip + 1))) else 0)),
                               unat (byte AND 0x1F) + 1 +
                                 (if byte AND 0x20 \<noteq> 0 then push_bit 5 (unat (inp ! (ip + 1))) else 0))
                    else None))"

definition parse_op :: "bstr \<Rightarrow> nat \<Rightarrow> nat \<Rightarrow> (nat \<times> nat) option" where
  "parse_op inp ip opos =
     (if inp ! ip AND 0x80 \<noteq> 0 \<and> inp ! ip AND 0x40 = 0 \<and>
         opos < push_bit 8 (unat (inp ! ip AND 3)) + unat (inp ! (ip + 1)) + 1
      then None
      else op_extent inp ip)"

lemma op_extent_next: "op_extent inp ip = Some (ip', n) \<Longrightarrow> ip < ip'"
  by (auto simp: op_extent_def Let_def split: if_splits)

function operands_present_from :: "bstr \<Rightarrow> nat \<Rightarrow> bool" where
  "operands_present_from inp ip =
     (if ip < length inp
      then (case op_extent inp ip of
              None \<Rightarrow> False
            | Some (ip', n) \<Rightarrow> operands_present_from inp ip')
      else True)"
  by pat_completeness auto
termination
proof (relation "measure (\<lambda>(inp, ip). length inp - ip)")
  show "wf (measure (\<lambda>(inp, ip). length inp - ip))" by simp
next
  fix inp :: bstr and ip :: nat and x2 :: "nat \<times> nat" and ip' n :: nat
  assume "ip < length inp" and "op_extent inp ip = Some x2" and "(ip', n) = x2"
  then have "ip < ip'" using op_extent_next [of inp ip ip' n] by simp
  with \<open>ip < length inp\<close>
  show "((inp, ip'), (inp, ip)) \<in> measure (\<lambda>(inp, ip). length inp - ip)"
    by simp
qed

declare operands_present_from.simps [simp del]

definition operands_present :: "bstr \<Rightarrow> bool" where
  "operands_present inp = operands_present_from inp 0"

lemma parse_op_next: "parse_op inp ip opos = Some (ip', n) \<Longrightarrow> ip < ip'"
  by (auto simp: parse_op_def dest: op_extent_next split: if_splits)

function well_formed_from :: "bstr \<Rightarrow> nat \<Rightarrow> nat \<Rightarrow> bool" where
  "well_formed_from inp ip opos =
     (if ip < length inp
      then (case parse_op inp ip opos of
              None \<Rightarrow> False
            | Some (ip', n) \<Rightarrow> well_formed_from inp ip' (opos + n))
      else True)"
  by pat_completeness auto
termination
proof (relation "measure (\<lambda>(inp, ip, opos). length inp - ip)")
  show "wf (measure (\<lambda>(inp, ip, opos). length inp - ip))" by simp
next
  fix inp :: bstr and ip opos :: nat and x2 :: "nat \<times> nat" and ip' n :: nat
  assume "ip < length inp" and "parse_op inp ip opos = Some x2" and "(ip', n) = x2"
  then have "ip < ip'" using parse_op_next [of inp ip opos ip' n] by simp
  with \<open>ip < length inp\<close>
  show "((inp, ip', opos + n), (inp, ip, opos)) \<in> measure (\<lambda>(inp, ip, opos). length inp - ip)"
    by simp
qed

declare well_formed_from.simps [simp del]

definition well_formed :: "bstr \<Rightarrow> bool" where
  "well_formed inp = well_formed_from inp 0 0"

text \<open>
  The additive blend as the spec words it, for comparison with \<open>additive_blend\<close>: the
  window is read once, each repetition adds it onto the same span starting at the current
  output position, and the output position advances by the block size once.
\<close>

fun overlay_window :: "bstr \<Rightarrow> nat \<Rightarrow> nat \<Rightarrow> nat \<Rightarrow> bstr \<Rightarrow> bstr" where
  "overlay_window win p i 0 out = out"
| "overlay_window win p i (Suc k) out =
     (if p + i \<ge> length out then out
      else overlay_window win p (i + 1) k (out[p + i := out ! (p + i) + win ! i]))"

fun overlay_repeat :: "bstr \<Rightarrow> nat \<Rightarrow> nat \<Rightarrow> bstr \<Rightarrow> bstr" where
  "overlay_repeat win p 0 out = out"
| "overlay_repeat win p (Suc r) out =
     overlay_repeat win p r (overlay_window win p 0 (length win) out)"

definition additive_blend_same_span :: "bstr \<Rightarrow> u8 \<Rightarrow> lnd_state \<Rightarrow> error + lnd_state" where
  "additive_blend_same_span inp byte st =
     bind_e (input_at inp (input_ptr st))
       (\<lambda>x. let repetitions = unat x + 1;
                sz = unat (byte AND 0x3F) + 2;
                window = take sz (drop (input_ptr st + 1) inp)
            in if length window < sz then Inl ReadPastInput
               else Inr \<lparr>input_ptr = input_ptr st + 1 + sz,
                         output_ptr = min (length (output_buf st)) (output_ptr st + sz),
                         output_buf = overlay_repeat window (output_ptr st) repetitions
                                        (output_buf st)\<rparr>)"

text \<open>
  The little-endian integers at an absolute offset of a buffer, the \<open>CorruptDataError\<close> of
  \<open>get_table_offset\<close>, and \<open>avoids e r\<close>: the result \<open>r\<close> is not the failure \<open>e\<close>.
\<close>

definition u32_at :: "bstr \<Rightarrow> nat \<Rightarrow> u32" where
  "u32_at bs i = word_of_nat (le_nat (take 4 (drop i bs)))"

definition u64_at :: "bstr \<Rightarrow> nat \<Rightarrow> u64" where
  "u64_at bs i = word_of_nat (le_nat (take 8 (drop i bs)))"

abbreviation version_error :: error where
  "version_error \<equiv> CorruptDataError ''Unexpected XP3 version''"

definition avoids :: "error \<Rightarrow> error + 'a \<Rightarrow> bool" where
  "avoids e r \<longleftrightarrow> r \<noteq> Inl e"

text \<open>
  The data of a \<open>segm\<close> chunk as the spec words it, for comparison with
  \<open>read_data_from_segm_chunk\<close>: the chunk holds consecutive 28-byte records of flags, data
  offset, original size and compressed size; each record yields the inflated
  \<open>compressed size\<close> bytes at its offset when \<open>flags & 7\<close> is nonzero and the raw
  \<open>original size\<close> bytes at its offset otherwise; the entry data is the concatenation in
  order. Bytes that the archive does not have are \<open>EofError\<close>, as for the cursor.
\<close>

type_synonym segm_record = "u32 \<times> u64 \<times> u64 \<times> u64"

definition segm_record_at :: "bstr \<Rightarrow> nat \<Rightarrow> segm_record" where
  "segm_record_at tbl p = (u32_at tbl p, u64_at tbl (p + 4), u64_at tbl (p + 12), u64_at tbl (p + 20))"

primrec segm_records :: "bstr \<Rightarrow> nat \<Rightarrow> nat \<Rightarrow> segm_record list" where
  "segm_records tbl p 0 = []"
| "segm_records tbl p (Suc k) = segm_record_at tbl p # segm_records tbl (p + 28) k"

definition archive_bytes :: "bstr \<Rightarrow> nat \<Rightarrow> nat \<Rightarrow> error + bstr" where
  "archive_bytes arc off n =
     (if off > length arc \<or> off + n > length arc then Inl EofError
      else Inr (take n (drop off arc)))"

definition segment_data :: "(bstr \<Rightarrow> bstr option) \<Rightarrow> bstr \<Rightarrow> segm_record \<Rightarrow> error + bstr" where
  "segment_data inflate arc r =
     (case r of (segm_flags, data_offset, data_size_original, data_size_compressed) \<Rightarrow>
        if segm_flags AND 7 \<noteq> 0
        then bind_e (archive_bytes arc (unat data_offset) (unat data_size_compressed))
               (zlib_inflate inflate)
        else archive_bytes arc (unat data_offset) (unat data_size_original))"

fun concat_segments :: "(bstr \<Rightarrow> bstr option) \<Rightarrow> bstr \<Rightarrow> segm_record list \<Rightarrow> error + bstr" where
  "concat_segments inflate arc [] = Inr []"
| "concat_segments inflate arc (r # rs) =
     bind_e (segment_data inflate arc r)
       (\<lambda>d. bind_e (concat_segments inflate arc rs) (\<lambda>ds. Inr (d @ ds)))"

text \<open>The data component of the result of \<open>read_data_from_segm_chunk\<close>.\<close>

definition result_data :: "error + bstr \<times> IO \<times> IO \<Rightarrow> error + bstr" where
  "result_data r = (case r of Inl e \<Rightarrow> Inl e | Inr (d, t, a) \<Rightarrow> Inr d)"

text \<open>
  Example inputs. \<open>example_table\<close> is one entry: a \<open>File\<close> chunk declaring 61 bytes,
  followed by an \<open>info\<close> chunk with an empty name (34 bytes), a \<open>segm\<close> chunk with no
  record (12 bytes) and an \<open>adlr\<close> chunk (16 bytes), 62 bytes together.
  \<open>example_archive\<close> is a version-1 archive whose table, stored uncompressed at offset 23, is
  \<open>example_table\<close>. \<open>example_segm\<close> is a \<open>segm\<close> chunk of 56 bytes: a raw record
  (offset 1, original size 2) and a compressed one (offset 0, compressed size 3);
  \<open>example_bad_segm\<close> declares 10 bytes.
\<close>

definition example_table :: bstr where
  "example_table =
    [
     0x46, 0x69, 0x6C, 0x65, 0x3D, 0x00, 0x00, 0x00, 0x00, 0x00, 0x00, 0x00, 0x69, 0x6E, 0x66,
     0x6F, 0x16, 0x00, 0x00, 0x00, 0x00, 0x00, 0x00, 0x00, 0x00, 0x00, 0x00, 0x00, 0x00, 0x00,
     0x00, 0x00, 0x00, 0x00, 0x00, 0x00, 0x00, 0x00, 0x00, 0x00, 0x00, 0x00, 0x00, 0x00, 0x00,
     0x00, 0x73, 0x65, 0x67, 0x6D, 0x00, 0x00, 0x00, 0x00, 0x00, 0x00, 0x00, 0x00, 0x61, 0x64,
     0x6C, 0x72, 0x04, 0x00, 0x00, 0x00, 0x00, 0x00, 0x00, 0x00, 0x00, 0x00, 0x00, 0x00]"

definition example_archive :: bstr where
  "example_archive =
    [
     0x58, 0x50, 0x33, 0x0D, 0x0A, 0x20, 0x0A, 0x1A, 0x8B, 0x67, 0x01, 0x17, 0x00, 0x00, 0x00,
     0x00, 0x00, 0x00, 0x00, 0x00, 0x00, 0x00, 0x00, 0x00, 0x4A, 0x00, 0x00, 0x00, 0x00, 0x00,
     0x00, 0x00, 0x46, 0x69, 0x6C, 0x65, 0x3D, 0x00, 0x00, 0x00, 0x00, 0x00, 0x00, 0x00, 0x69,
     0x6E, 0x66, 0x6F, 0x16, 0x00, 0x00, 0x00, 0x00, 0x00, 0x00, 0x00, 0x00, 0x00, 0x00, 0x00,
     0x00, 0x00, 0x00, 0x00, 0x00, 0x00, 0x00, 0x00, 0x00, 0x00, 0x00, 0x00, 0x00, 0x00, 0x00,
     0x00, 0x00, 0x00, 0x73, 0x65, 0x67, 0x6D, 0x00, 0x00, 0x00, 0x00, 0x00, 0x00, 0x00, 0x00,
     0x61, 0x64, 0x6C, 0x72, 0x04, 0x00, 0x00, 0x00, 0x00, 0x00, 0x00, 0x00, 0x00, 0x00, 0x00,
     0x00]"

definition example_segm :: bstr where
  "example_segm =
    [
     0x73, 0x65, 0x67, 0x6D, 0x38, 0x00, 0x00, 0x00, 0x00, 0x00, 0x00, 0x00, 0x00, 0x00, 0x00,
     0x00, 0x01, 0x00, 0x00, 0x00, 0x00, 0x00, 0x00, 0x00, 0x02, 0x00, 0x00, 0x00, 0x00, 0x00,
     0x00, 0x00, 0x00, 0x00, 0x00, 0x00, 0x00, 0x00, 0x00, 0x00, 0x01, 0x00, 0x00, 0x00, 0x00,
     0x00, 0x00, 0x00, 0x00, 0x00, 0x00, 0x00, 0x00, 0x00, 0x00, 0x00, 0x00, 0x00, 0x00, 0x00,
     0x03, 0x00, 0x00, 0x00, 0x00, 0x00, 0x00, 0x00]"

definition example_bad_segm :: bstr where
  "example_bad_segm =
    [
     0x73, 0x65, 0x67, 0x6D, 0x0A, 0x00, 0x00, 0x00, 0x00, 0x00, 0x00, 0x00, 0x00, 0x00, 0x00,
     0x00, 0x00, 0x00, 0x00, 0x00, 0x00, 0x00]"

section \<open>Properties of the LND decompressor\<close>

subsection \<open>What each loop does when its operand bytes are present\<close>

lemma input_at_Inr: "i < length inp \<Longrightarrow> input_at inp i = Inr (inp ! i)"
  by (simp add: input_at_def)

lemma put_output_Inr:
  "output_ptr st < length (output_buf st) \<Longrightarrow>
     put_output st v =
       Inr (st\<lparr>output_buf := (output_buf st)[output_ptr st := v], output_ptr := output_ptr st + 1\<rparr>)"
  by (simp add: put_output_def)

lemma add_output_Inr:
  "output_ptr st < length (output_buf st) \<Longrightarrow>
     add_output st v =
       Inr (st\<lparr>output_buf := (output_buf st)[output_ptr st := output_buf st ! output_ptr st + v],
               output_ptr := output_ptr st + 1\<rparr>)"
  by (simp add: add_output_def)

lemma fill_loop_total:
  assumes "input_ptr st < length inp" and "output_ptr st \<le> length (output_buf st)"
  shows "\<exists>st'. fill_loop inp k st = Inr st' \<and> input_ptr st' = input_ptr st \<and>
           output_ptr st' = min (length (output_buf st)) (output_ptr st + k) \<and>
           length (output_buf st') = length (output_buf st) \<and>
           (\<forall>i. output_buf st' ! i =
                  (if output_ptr st \<le> i \<and> i < output_ptr st' then inp ! input_ptr st
                   else output_buf st ! i))"
  using assms
proof (induction k arbitrary: st)
  case 0
  then show ?case by auto
next
  case (Suc k)
  show ?case
  proof (cases "output_ptr st \<ge> length (output_buf st)")
    case True
    with Suc.prems show ?thesis by auto
  next
    case False
    let ?st1 = "st\<lparr>output_buf := (output_buf st)[output_ptr st := inp ! input_ptr st],
                    output_ptr := output_ptr st + 1\<rparr>"
    from False have lt: "output_ptr st < length (output_buf st)" by simp
    have step: "fill_loop inp (Suc k) st = fill_loop inp k ?st1"
      using False Suc.prems(1) by (simp add: input_at_Inr put_output_Inr)
    from Suc.prems lt have "input_ptr ?st1 < length inp"
      and "output_ptr ?st1 \<le> length (output_buf ?st1)" by simp_all
    from Suc.IH [OF this] obtain st' where
      r: "fill_loop inp k ?st1 = Inr st'" and i: "input_ptr st' = input_ptr st"
      and o: "output_ptr st' = min (length (output_buf st)) (output_ptr st + 1 + k)"
      and l: "length (output_buf st') = length (output_buf st)"
      and c: "\<And>i. output_buf st' ! i =
                  (if output_ptr st + 1 \<le> i \<and> i < output_ptr st' then inp ! input_ptr st
                   else (output_buf st)[output_ptr st := inp ! input_ptr st] ! i)"
      by auto
    have "\<forall>i. output_buf st' ! i =
                  (if output_ptr st \<le> i \<and> i < output_ptr st' then inp ! input_ptr st
                   else output_buf st ! i)"
      using c o lt by (auto simp: nth_list_update)
    with step r i o l show ?thesis by auto
  qed
qed

lemma copy_loop_total:
  assumes "1 \<le> lb" and "lb \<le> int (output_ptr st)" and "output_ptr st \<le> length (output_buf st)"
  shows "\<exists>st'. copy_loop lb k st = Inr st' \<and> input_ptr st' = input_ptr st \<and>
           output_ptr st' = min (length (output_buf st)) (output_ptr st + k) \<and>
           length (output_buf st') = length (output_buf st)"
  using assms
proof (induction k arbitrary: st)
  case 0
  then show ?case by auto
next
  case (Suc k)
  from Suc.prems obtain tmp where
    rd: "output_at (output_buf st) (int (output_ptr st) - lb) = Inr tmp"
    by (auto simp: output_at_def)
  show ?case
  proof (cases "output_ptr st \<ge> length (output_buf st)")
    case True
    with Suc.prems rd show ?thesis by simp
  next
    case False
    let ?st1 = "st\<lparr>output_buf := (output_buf st)[output_ptr st := tmp],
                    output_ptr := output_ptr st + 1\<rparr>"
    from False have lt: "output_ptr st < length (output_buf st)" by simp
    have step: "copy_loop lb (Suc k) st = copy_loop lb k ?st1"
      using False rd by (simp add: put_output_Inr)
    from Suc.prems lt have "1 \<le> lb" and "lb \<le> int (output_ptr ?st1)"
      and "output_ptr ?st1 \<le> length (output_buf ?st1)" by simp_all
    from Suc.IH [OF this] step lt show ?thesis by auto
  qed
qed

lemma literal_loop_total:
  assumes "input_ptr st + k \<le> length inp" and "output_ptr st \<le> length (output_buf st)"
  shows "\<exists>st'. literal_loop inp k st = Inr st' \<and>
           input_ptr st' = input_ptr st + min k (length (output_buf st) - output_ptr st) \<and>
           output_ptr st' = min (length (output_buf st)) (output_ptr st + k) \<and>
           length (output_buf st') = length (output_buf st)"
  using assms
proof (induction k arbitrary: st)
  case 0
  then show ?case by auto
next
  case (Suc k)
  show ?case
  proof (cases "output_ptr st \<ge> length (output_buf st)")
    case True
    with Suc.prems show ?thesis by auto
  next
    case False
    let ?st1 = "st\<lparr>input_ptr := input_ptr st + 1,
                    output_buf := (output_buf st)[output_ptr st := inp ! input_ptr st],
                    output_ptr := output_ptr st + 1\<rparr>"
    from False have lt: "output_ptr st < length (output_buf st)" by simp
    have step: "literal_loop inp (Suc k) st = literal_loop inp k ?st1"
      using False Suc.prems(1) by (simp add: input_at_Inr put_output_Inr)
    from Suc.prems lt have "input_ptr ?st1 + k \<le> length inp"
      and "output_ptr ?st1 \<le> length (output_buf ?st1)" by simp_all
    from Suc.IH [OF this] step lt show ?thesis by auto
  qed
qed

lemma blend_inner_total:
  assumes "input_ptr st + i + k \<le> length inp" and "output_ptr st \<le> length (output_buf st)"
  shows "\<exists>st'. blend_inner inp i k st = Inr st' \<and> input_ptr st' = input_ptr st \<and>
           output_ptr st' = min (length (output_buf st)) (output_ptr st + k) \<and>
           length (output_buf st') = length (output_buf st) \<and>
           (\<forall>j. output_buf st' ! j =
                  (if output_ptr st \<le> j \<and> j < output_ptr st'
                   then output_buf st ! j + inp ! (input_ptr st + i + (j - output_ptr st))
                   else output_buf st ! j))"
  using assms
proof (induction k arbitrary: st i)
  case 0
  then show ?case by auto
next
  case (Suc k)
  show ?case
  proof (cases "output_ptr st \<ge> length (output_buf st)")
    case True
    with Suc.prems show ?thesis by auto
  next
    case False
    let ?w = "inp ! (input_ptr st + i)"
    let ?st1 = "st\<lparr>output_buf := (output_buf st)[output_ptr st := output_buf st ! output_ptr st + ?w],
                    output_ptr := output_ptr st + 1\<rparr>"
    from False have lt: "output_ptr st < length (output_buf st)" by simp
    have step: "blend_inner inp i (Suc k) st = blend_inner inp (i + 1) k ?st1"
      using False Suc.prems(1) by (simp add: input_at_Inr add_output_Inr)
    from Suc.prems lt have "input_ptr ?st1 + (i + 1) + k \<le> length inp"
      and "output_ptr ?st1 \<le> length (output_buf ?st1)" by simp_all
    from Suc.IH [OF this] obtain st' where
      r: "blend_inner inp (i + 1) k ?st1 = Inr st'" and ip: "input_ptr st' = input_ptr st"
      and o: "output_ptr st' = min (length (output_buf st)) (output_ptr st + 1 + k)"
      and l: "length (output_buf st') = length (output_buf st)"
      and c: "\<And>j. output_buf st' ! j =
                  (if output_ptr st + 1 \<le> j \<and> j < output_ptr st'
                   then (output_buf st)[output_ptr st := output_buf st ! output_ptr st + ?w] ! j
                        + inp ! (input_ptr st + (i + 1) + (j - (output_ptr st + 1)))
                   else (output_buf st)[output_ptr st := output_buf st ! output_ptr st + ?w] ! j)"
      by auto
    have "output_buf st' ! j =
                  (if output_ptr st \<le> j \<and> j < output_ptr st'
                   then output_buf st ! j + inp ! (input_ptr st + i + (j - output_ptr st))
                   else output_buf st ! j)" for j
    proof (cases "j = output_ptr st")
      case True
      with c [of j] o lt show ?thesis by simp
    next
      case False
      then have "input_ptr st + (i + 1) + (j - (output_ptr st + 1)) = input_ptr st + i + (j - output_ptr st)"
        if "output_ptr st + 1 \<le> j" using that by simp
      with False c [of j] show ?thesis by (auto simp: nth_list_update)
    qed
    with step r ip o l show ?thesis by auto
  qed
qed


lemma blend_outer_total:
  assumes "input_ptr st + sz \<le> length inp" and "output_ptr st \<le> length (output_buf st)"
  shows "\<exists>st'. blend_outer inp sz r st = Inr st' \<and> input_ptr st' = input_ptr st \<and>
           output_ptr st' = min (length (output_buf st)) (output_ptr st + r * sz) \<and>
           length (output_buf st') = length (output_buf st) \<and>
           (\<forall>j. output_buf st' ! j =
                  (if output_ptr st \<le> j \<and> j < output_ptr st'
                   then output_buf st ! j + inp ! (input_ptr st + (j - output_ptr st) mod sz)
                   else output_buf st ! j))"
  using assms
proof (induction r arbitrary: st)
  case 0
  then show ?case by auto
next
  case (Suc r)
  from blend_inner_total [of st 0 sz inp] Suc.prems obtain st1 where
    a: "blend_inner inp 0 sz st = Inr st1" and ip1: "input_ptr st1 = input_ptr st"
    and o1: "output_ptr st1 = min (length (output_buf st)) (output_ptr st + sz)"
    and l1: "length (output_buf st1) = length (output_buf st)"
    and c1: "\<And>j. output_buf st1 ! j =
                  (if output_ptr st \<le> j \<and> j < output_ptr st1
                   then output_buf st ! j + inp ! (input_ptr st + (j - output_ptr st))
                   else output_buf st ! j)"
    by auto
  from Suc.prems ip1 o1 l1 have "input_ptr st1 + sz \<le> length inp"
    and "output_ptr st1 \<le> length (output_buf st1)" by simp_all
  from Suc.IH [OF this] obtain st' where
    b: "blend_outer inp sz r st1 = Inr st'" and ip: "input_ptr st' = input_ptr st1"
    and o: "output_ptr st' = min (length (output_buf st1)) (output_ptr st1 + r * sz)"
    and l: "length (output_buf st') = length (output_buf st1)"
    and c: "\<And>j. output_buf st' ! j =
                  (if output_ptr st1 \<le> j \<and> j < output_ptr st'
                   then output_buf st1 ! j + inp ! (input_ptr st1 + (j - output_ptr st1) mod sz)
                   else output_buf st1 ! j)"
    by auto
  have o': "output_ptr st' = min (length (output_buf st)) (output_ptr st + Suc r * sz)"
    using o o1 l1 by (simp add: min_def)
  have "output_buf st' ! j =
                  (if output_ptr st \<le> j \<and> j < output_ptr st'
                   then output_buf st ! j + inp ! (input_ptr st + (j - output_ptr st) mod sz)
                   else output_buf st ! j)" for j
  proof (cases "output_ptr st1 \<le> j \<and> j < output_ptr st'")
    case True
    then have full: "output_ptr st1 = output_ptr st + sz"
      using o o1 l1 by (simp add: min_def split: if_splits)
    with True have "j - output_ptr st = (j - output_ptr st1) + sz" by simp
    then have m: "(j - output_ptr st1) mod sz = (j - output_ptr st) mod sz"
      by (simp only: mod_add_self2)
    from True full have "output_ptr st \<le> j" and "j < output_ptr st'" by simp_all
    moreover from True have "\<not> j < output_ptr st1" by simp
    ultimately show ?thesis
      using c [of j] c1 [of j] True by (simp only: m ip1 if_True if_False simp_thms)
  next
    case False
    have "output_ptr st1 \<le> output_ptr st'" using o l1 o1 by simp
    show ?thesis
    proof (cases "output_ptr st \<le> j \<and> j < output_ptr st1")
      case True
      then have "j - output_ptr st < sz" using o1 by auto
      then have "(j - output_ptr st) mod sz = j - output_ptr st" by simp
      moreover from True \<open>output_ptr st1 \<le> output_ptr st'\<close> have "j < output_ptr st'" by simp
      ultimately show ?thesis using True False c [of j] c1 [of j] by simp
    next
      case F2: False
      from o1 Suc.prems(2) have "output_ptr st \<le> output_ptr st1" by simp
      with F2 False have n3: "\<not> (output_ptr st \<le> j \<and> j < output_ptr st')" by auto
      show ?thesis using c [of j] c1 [of j] by (simp only: F2 False n3 if_False)
    qed
  qed
  with a b ip ip1 o' l l1 show ?case by auto
qed

subsection \<open>What each operation does when its operand bytes are present\<close>

lemma extended_count_total:
  assumes "byte AND 0x20 \<noteq> 0 \<longrightarrow> input_ptr st < length inp"
  shows "extended_count inp byte n st =
           Inr (n + (if byte AND 0x20 \<noteq> 0 then push_bit 5 (unat (inp ! input_ptr st)) else 0),
                st\<lparr>input_ptr := input_ptr st + (if byte AND 0x20 \<noteq> 0 then 1 else 0)\<rparr>)"
  using assms by (simp add: extended_count_def input_at_Inr)

lemma extended_count_Inr:
  "extended_count inp byte n st = Inr (m, st1) \<Longrightarrow>
     st1 = st\<lparr>input_ptr := input_ptr st + (if byte AND 0x20 \<noteq> 0 then 1 else 0)\<rparr>"
  by (auto simp: extended_count_def bind_e_Inr_iff split: if_splits)

lemma fill_loop_input_ptr: "fill_loop inp k st = Inr st' \<Longrightarrow> input_ptr st' = input_ptr st"
proof (induction k arbitrary: st)
  case 0
  then show ?case by simp
next
  case (Suc k)
  show ?case
  proof (cases "output_ptr st \<ge> length (output_buf st)")
    case True
    with Suc.prems show ?thesis by simp
  next
    case False
    with Suc.prems obtain v st1 where
      p: "put_output st v = Inr st1" and r: "fill_loop inp k st1 = Inr st'"
      by (auto simp: bind_e_Inr_iff)
    from p have "input_ptr st1 = input_ptr st"
      by (auto simp: put_output_def split: if_splits)
    with Suc.IH [OF r] show ?thesis by simp
  qed
qed

lemma fill_run_total:
  assumes "input_ptr st + (if byte AND 0x20 \<noteq> 0 then 1 else 0) < length inp"
    and "output_ptr st \<le> length (output_buf st)"
  shows "\<exists>st2. fill_run inp byte st = Inr st2 \<and>
         input_ptr st2 = input_ptr st + (if byte AND 0x20 \<noteq> 0 then 1 else 0) + 1 \<and>
         output_ptr st2 =
           min (length (output_buf st)) (output_ptr st + fill_run_length inp byte st) \<and>
         length (output_buf st2) = length (output_buf st) \<and>
         (\<forall>i. output_buf st2 ! i =
                (if output_ptr st \<le> i \<and> i < output_ptr st2
                 then inp ! (input_ptr st + (if byte AND 0x20 \<noteq> 0 then 1 else 0))
                 else output_buf st ! i))"
proof -
  let ?e = "if byte AND 0x20 \<noteq> 0 then 1 else 0 :: nat"
  let ?st1 = "st\<lparr>input_ptr := input_ptr st + ?e\<rparr>"
  from assms have "byte AND 0x20 \<noteq> 0 \<longrightarrow> input_ptr st < length inp" by auto
  from extended_count_total [OF this]
  have x: "extended_count inp byte (unat (byte AND 0x1F) + 2) st =
             Inr (fill_run_length inp byte st, ?st1)"
    by (simp add: fill_run_length_def)
  from assms have "input_ptr ?st1 < length inp" and "output_ptr ?st1 \<le> length (output_buf ?st1)"
    by simp_all
  from fill_loop_total [OF this, of "fill_run_length inp byte st"] obtain st2 where
    l: "fill_loop inp (fill_run_length inp byte st) ?st1 = Inr st2"
    and i: "input_ptr st2 = input_ptr st + ?e"
    and o: "output_ptr st2 = min (length (output_buf st)) (output_ptr st + fill_run_length inp byte st)"
    and n: "length (output_buf st2) = length (output_buf st)"
    and c: "\<forall>i. output_buf st2 ! i =
                (if output_ptr st \<le> i \<and> i < output_ptr st2 then inp ! (input_ptr st + ?e)
                 else output_buf st ! i)"
    by auto
  have "fill_run inp byte st = Inr (st2\<lparr>input_ptr := input_ptr st2 + 1\<rparr>)"
    unfolding fill_run_def by (simp only: x bind_e_simps prod.case l)
  with i o n c show ?thesis by simp
qed

lemma back_reference_total:
  assumes "input_ptr st < length inp"
    and "push_bit 8 (unat (byte AND 3)) + unat (inp ! input_ptr st) + 1 \<le> output_ptr st"
    and "output_ptr st \<le> length (output_buf st)"
  shows "\<exists>st2. back_reference inp byte st = Inr st2 \<and>
         input_ptr st2 = input_ptr st + 1 \<and>
         output_ptr st2 =
           min (length (output_buf st)) (output_ptr st + (unat (drop_bit 2 byte AND 0xF) + 2)) \<and>
         length (output_buf st2) = length (output_buf st)"
proof -
  let ?lb = "int (push_bit 8 (unat (byte AND 3))) + int (unat (inp ! input_ptr st)) + 1"
  let ?st1 = "st\<lparr>input_ptr := input_ptr st + 1\<rparr>"
  have pos: "\<not> ?lb < 0"
    using of_nat_0_le_iff [of "push_bit 8 (unat (byte AND 3))", where ?'a = int]
      of_nat_0_le_iff [of "unat (inp ! input_ptr st)", where ?'a = int]
    by linarith
  from assms(2) have "?lb \<le> int (output_ptr st)" by linarith
  then have "1 \<le> ?lb" and "?lb \<le> int (output_ptr ?st1)"
    and "output_ptr ?st1 \<le> length (output_buf ?st1)" using assms(3) by simp_all
  from copy_loop_total [OF this, of "unat (drop_bit 2 byte AND 0xF) + 2"] obtain st2 where
    l: "copy_loop ?lb (unat (drop_bit 2 byte AND 0xF) + 2) ?st1 = Inr st2"
    and r: "input_ptr st2 = input_ptr st + 1"
      "output_ptr st2 =
           min (length (output_buf st)) (output_ptr st + (unat (drop_bit 2 byte AND 0xF) + 2))"
      "length (output_buf st2) = length (output_buf st)"
    by auto
  have "back_reference inp byte st = Inr st2"
    unfolding back_reference_def Let_def
    by (simp only: input_at_Inr [OF assms(1)] bind_e_simps pos if_False l)
  with r show ?thesis by simp
qed

lemma additive_blend_total:
  assumes "input_ptr st + 1 + (unat (byte AND 0x3F) + 2) \<le> length inp"
    and "output_ptr st \<le> length (output_buf st)"
  shows "\<exists>st'. additive_blend inp byte st = Inr st' \<and>
           input_ptr st' = input_ptr st + 1 + (unat (byte AND 0x3F) + 2) \<and>
           output_ptr st' =
             min (length (output_buf st))
                 (output_ptr st + (unat (inp ! input_ptr st) + 1) * (unat (byte AND 0x3F) + 2)) \<and>
           length (output_buf st') = length (output_buf st) \<and>
           (\<forall>j. output_buf st' ! j =
                  (if output_ptr st \<le> j \<and> j < output_ptr st'
                   then output_buf st ! j +
                        inp ! (input_ptr st + 1 + (j - output_ptr st) mod (unat (byte AND 0x3F) + 2))
                   else output_buf st ! j))"
proof -
  let ?sz = "unat (byte AND 0x3F) + 2"
  let ?reps = "unat (inp ! input_ptr st) + 1"
  let ?st1 = "st\<lparr>input_ptr := input_ptr st + 1\<rparr>"
  from assms have rd: "input_at inp (input_ptr st) = Inr (inp ! input_ptr st)"
    by (simp add: input_at_Inr)
  from assms have "input_ptr ?st1 + ?sz \<le> length inp"
    and "output_ptr ?st1 \<le> length (output_buf ?st1)" by simp_all
  from blend_outer_total [OF this, of ?reps] obtain st2 where
    l: "blend_outer inp ?sz ?reps ?st1 = Inr st2"
    and i: "input_ptr st2 = input_ptr st + 1"
    and o: "output_ptr st2 = min (length (output_buf st)) (output_ptr st + ?reps * ?sz)"
    and n: "length (output_buf st2) = length (output_buf st)"
    and c: "\<forall>j. output_buf st2 ! j =
                  (if output_ptr st \<le> j \<and> j < output_ptr st2
                   then output_buf st ! j + inp ! (input_ptr st + 1 + (j - output_ptr st) mod ?sz)
                   else output_buf st ! j)"
    by auto
  have "additive_blend inp byte st = Inr (st2\<lparr>input_ptr := input_ptr st2 + ?sz\<rparr>)"
    unfolding additive_blend_def Let_def by (simp only: rd bind_e_simps l)
  with i o n c show ?thesis by simp
qed

lemma literal_copy_total:
  assumes "byte AND 0x20 \<noteq> 0 \<longrightarrow> input_ptr st < length inp"
    and "input_ptr st + (if byte AND 0x20 \<noteq> 0 then 1 else 0) + literal_length inp byte st
           \<le> length inp"
    and "output_ptr st \<le> length (output_buf st)"
  shows "\<exists>st2. literal_copy inp byte st = Inr st2 \<and>
         input_ptr st2 = input_ptr st + (if byte AND 0x20 \<noteq> 0 then 1 else 0) +
             min (literal_length inp byte st) (length (output_buf st) - output_ptr st) \<and>
         output_ptr st2 =
           min (length (output_buf st)) (output_ptr st + literal_length inp byte st) \<and>
         length (output_buf st2) = length (output_buf st)"
proof -
  let ?e = "if byte AND 0x20 \<noteq> 0 then 1 else 0 :: nat"
  let ?st1 = "st\<lparr>input_ptr := input_ptr st + ?e\<rparr>"
  from extended_count_total [OF assms(1)]
  have x: "extended_count inp byte (unat (byte AND 0x1F) + 1) st =
             Inr (literal_length inp byte st, ?st1)"
    by (simp add: literal_length_def)
  from assms have "input_ptr ?st1 + literal_length inp byte st \<le> length inp"
    and "output_ptr ?st1 \<le> length (output_buf ?st1)"
    by simp_all
  from literal_loop_total [OF this] obtain st2 where
    l: "literal_loop inp (literal_length inp byte st) ?st1 = Inr st2"
    and r: "input_ptr st2 = input_ptr st + ?e +
             min (literal_length inp byte st) (length (output_buf st) - output_ptr st)"
      "output_ptr st2 = min (length (output_buf st)) (output_ptr st + literal_length inp byte st)"
      "length (output_buf st2) = length (output_buf st)"
    by auto
  have "literal_copy inp byte st = Inr st2"
    unfolding literal_copy_def by (simp only: x bind_e_simps prod.case l)
  with r show ?thesis by simp
qed

lemma decode_op_well_formed:
  assumes ip: "input_ptr st < length inp"
    and p: "parse_op inp (input_ptr st) (output_ptr st) = Some (ip', n)"
    and o: "output_ptr st \<le> length (output_buf st)"
  shows "\<exists>x. decode_op inp (inp ! input_ptr st) (st\<lparr>input_ptr := input_ptr st + 1\<rparr>) = Inr x \<and>
           length (output_buf x) = length (output_buf st) \<and>
           output_ptr x = min (length (output_buf st)) (output_ptr st + n) \<and>
           (output_ptr st + n \<le> length (output_buf st) \<longrightarrow> input_ptr x = ip')"
proof -
  let ?b = "inp ! input_ptr st"
  let ?st1 = "st\<lparr>input_ptr := input_ptr st + 1\<rparr>"
  consider (fill) "?b AND 0x80 \<noteq> 0 \<and> ?b AND 0x40 \<noteq> 0"
    | (bref) "?b AND 0x80 \<noteq> 0 \<and> ?b AND 0x40 = 0"
    | (blend) "?b AND 0x80 = 0 \<and> ?b AND 0x40 \<noteq> 0"
    | (lit) "?b AND 0x80 = 0 \<and> ?b AND 0x40 = 0"
    by blast
  then show ?thesis
  proof cases
    case fill
    with p have a: "input_ptr ?st1 + (if ?b AND 0x20 \<noteq> 0 then 1 else 0) < length inp"
      and ip': "ip' = input_ptr st + (if ?b AND 0x20 \<noteq> 0 then 1 else 0) + 2"
      and n: "n = fill_run_length inp ?b ?st1"
      by (auto simp: parse_op_def op_extent_def Let_def fill_run_length_def split: if_splits)
    from o have "output_ptr ?st1 \<le> length (output_buf ?st1)" by simp
    from fill_run_total [OF a this] fill ip' n show ?thesis
      by (auto simp: decode_op_def)
  next
    case bref
    with p have a: "input_ptr ?st1 < length inp"
      and d: "push_bit 8 (unat (?b AND 3)) + unat (inp ! input_ptr ?st1) + 1 \<le> output_ptr ?st1"
      and ip': "ip' = input_ptr st + 2"
      and n: "n = unat (drop_bit 2 ?b AND 0xF) + 2"
      by (auto simp: parse_op_def op_extent_def Let_def split: if_splits)
    from o have "output_ptr ?st1 \<le> length (output_buf ?st1)" by simp
    from back_reference_total [OF a d this] bref ip' n show ?thesis
      by (auto simp: decode_op_def)
  next
    case blend
    with p have a: "input_ptr ?st1 + 1 + (unat (?b AND 0x3F) + 2) \<le> length inp"
      and ip': "ip' = input_ptr st + 2 + (unat (?b AND 0x3F) + 2)"
      and n: "n = (unat (inp ! input_ptr ?st1) + 1) * (unat (?b AND 0x3F) + 2)"
      by (auto simp: parse_op_def op_extent_def Let_def split: if_splits)
    from o have "output_ptr ?st1 \<le> length (output_buf ?st1)" by simp
    from additive_blend_total [OF a this] blend ip' n show ?thesis
      by (auto simp: decode_op_def)
  next
    case lit
    with p have a: "?b AND 0x20 \<noteq> 0 \<longrightarrow> input_ptr ?st1 < length inp"
      and b: "input_ptr ?st1 + (if ?b AND 0x20 \<noteq> 0 then 1 else 0) + literal_length inp ?b ?st1
           \<le> length inp"
      and ip': "ip' = input_ptr st + (if ?b AND 0x20 \<noteq> 0 then 1 else 0) + 1 + literal_length inp ?b ?st1"
      and n: "n = literal_length inp ?b ?st1"
      by (auto simp: parse_op_def op_extent_def Let_def literal_length_def split: if_splits)
    from o have "output_ptr ?st1 \<le> length (output_buf ?st1)" by simp
    from literal_copy_total [OF a b this] lit ip' n show ?thesis
      by (auto simp: decode_op_def)
  qed
qed

lemma decompress_loop_well_formed:
  "well_formed_from inp (input_ptr st) (output_ptr st) \<Longrightarrow>
   output_ptr st \<le> length (output_buf st) \<Longrightarrow>
   \<exists>st'. decompress_loop inp st = Inr st'"
proof (induction inp st rule: decompress_loop.induct)
  case (1 inp st)
  show ?case
  proof (cases "output_ptr st < length (output_buf st) \<and> input_ptr st < length inp")
    case True
    with "1.prems"(1) obtain ip' n where
      p: "parse_op inp (input_ptr st) (output_ptr st) = Some (ip', n)"
      and w: "well_formed_from inp ip' (output_ptr st + n)"
      by (auto simp: well_formed_from.simps [of inp "input_ptr st"] split: option.splits)
    from True have ip: "input_ptr st < length inp" by simp
    from decode_op_well_formed [OF ip p "1.prems"(2)] obtain x where
      d: "decode_op inp (inp ! input_ptr st) (st\<lparr>input_ptr := input_ptr st + 1\<rparr>) = Inr x"
      and l: "length (output_buf x) = length (output_buf st)"
      and ox: "output_ptr x = min (length (output_buf st)) (output_ptr st + n)"
      and ix: "output_ptr st + n \<le> length (output_buf st) \<longrightarrow> input_ptr x = ip'"
      by auto
    have "\<exists>st'. decompress_loop inp x = Inr st'"
    proof (cases "output_ptr st + n < length (output_buf st)")
      case True
      with ox ix w have "well_formed_from inp (input_ptr x) (output_ptr x)" by simp
      moreover from ox l have "output_ptr x \<le> length (output_buf x)" by simp
      ultimately show ?thesis using "1.IH" [OF \<open>output_ptr st < length (output_buf st) \<and> input_ptr st < length inp\<close> d]
        by simp
    next
      case False
      with ox l have "\<not> output_ptr x < length (output_buf x)" by simp
      then show ?thesis by (simp add: decompress_loop.simps [of inp x])
    qed
    with True d show ?thesis by (simp add: decompress_loop.simps [of inp st])
  next
    case False
    then show ?thesis by (auto simp: decompress_loop.simps [of inp st])
  qed
qed

subsection \<open>Which errors the decompressor can return\<close>

lemma bind_e_Inl_iff: "bind_e m f = Inl e \<longleftrightarrow> m = Inl e \<or> (\<exists>x. m = Inr x \<and> f x = Inl e)"
  by (cases m) simp_all

lemma input_at_Inl: "input_at inp i = Inl e \<Longrightarrow> read_fault e"
  by (auto simp: input_at_def read_fault_def split: if_splits)

lemma output_at_Inl: "output_at out i = Inl e \<Longrightarrow> read_fault e"
  by (auto simp: output_at_def read_fault_def split: if_splits)

lemma fill_loop_Inl: "fill_loop inp k st = Inl e \<Longrightarrow> read_fault e"
proof (induction k arbitrary: st)
  case 0
  then show ?case by simp
next
  case (Suc k)
  show ?case
  proof (cases "output_ptr st \<ge> length (output_buf st)")
    case True
    with Suc.prems show ?thesis by simp
  next
    case False
    then have p: "put_output st v = Inr (st\<lparr>output_buf := (output_buf st)[output_ptr st := v],
                    output_ptr := output_ptr st + 1\<rparr>)" for v
      by (simp add: put_output_Inr)
    from Suc.prems False show ?thesis
      by (auto simp: bind_e_Inl_iff p dest: input_at_Inl Suc.IH)
  qed
qed

lemma copy_loop_Inl: "copy_loop lb k st = Inl e \<Longrightarrow> read_fault e"
proof (induction k arbitrary: st)
  case 0
  then show ?case by simp
next
  case (Suc k)
  show ?case
  proof (cases "output_ptr st \<ge> length (output_buf st)")
    case True
    with Suc.prems show ?thesis by (auto simp: bind_e_Inl_iff dest: output_at_Inl)
  next
    case False
    then have p: "put_output st v = Inr (st\<lparr>output_buf := (output_buf st)[output_ptr st := v],
                    output_ptr := output_ptr st + 1\<rparr>)" for v
      by (simp add: put_output_Inr)
    from Suc.prems False show ?thesis
      by (auto simp: bind_e_Inl_iff p dest: output_at_Inl Suc.IH)
  qed
qed

lemma blend_inner_Inl: "blend_inner inp i k st = Inl e \<Longrightarrow> read_fault e"
proof (induction k arbitrary: st i)
  case 0
  then show ?case by simp
next
  case (Suc k)
  show ?case
  proof (cases "output_ptr st \<ge> length (output_buf st)")
    case True
    with Suc.prems show ?thesis by simp
  next
    case False
    then have p: "add_output st v = Inr (st\<lparr>output_buf := (output_buf st)[output_ptr st := output_buf st ! output_ptr st + v],
                    output_ptr := output_ptr st + 1\<rparr>)" for v
      by (simp add: add_output_Inr)
    from Suc.prems False show ?thesis
      by (auto simp: bind_e_Inl_iff p dest: input_at_Inl Suc.IH)
  qed
qed

lemma blend_outer_Inl: "blend_outer inp sz r st = Inl e \<Longrightarrow> read_fault e"
proof (induction r arbitrary: st)
  case 0
  then show ?case by simp
next
  case (Suc r)
  then show ?case by (auto simp: bind_e_Inl_iff dest: blend_inner_Inl)
qed

lemma literal_loop_Inl: "literal_loop inp k st = Inl e \<Longrightarrow> read_fault e"
proof (induction k arbitrary: st)
  case 0
  then show ?case by simp
next
  case (Suc k)
  show ?case
  proof (cases "output_ptr st \<ge> length (output_buf st)")
    case True
    with Suc.prems show ?thesis by simp
  next
    case False
    with Suc.prems show ?thesis
      by (auto simp: bind_e_Inl_iff put_output_def dest: input_at_Inl Suc.IH)
  qed
qed

lemma extended_count_Inl: "extended_count inp byte n st = Inl e \<Longrightarrow> read_fault e"
  by (auto simp: extended_count_def bind_e_Inl_iff split: if_splits dest: input_at_Inl)

lemma fill_run_Inl: "fill_run inp byte st = Inl e \<Longrightarrow> read_fault e"
  unfolding fill_run_def
  by (auto simp only: bind_e_Inl_iff split_paired_all prod.case sum.distinct simp_thms
           dest: extended_count_Inl fill_loop_Inl)

lemma back_reference_Inl: "back_reference inp byte st = Inl e \<Longrightarrow> read_fault e"
  unfolding back_reference_def Let_def
  by (auto simp only: bind_e_Inl_iff dest: input_at_Inl copy_loop_Inl)

lemma additive_blend_Inl: "additive_blend inp byte st = Inl e \<Longrightarrow> read_fault e"
  unfolding additive_blend_def Let_def
  by (auto simp only: bind_e_Inl_iff sum.distinct simp_thms dest: input_at_Inl blend_outer_Inl)

lemma literal_copy_Inl: "literal_copy inp byte st = Inl e \<Longrightarrow> read_fault e"
  unfolding literal_copy_def
  by (auto simp only: bind_e_Inl_iff split_paired_all prod.case
           dest: extended_count_Inl literal_loop_Inl)

lemma decode_op_Inl: "decode_op inp byte st = Inl e \<Longrightarrow> read_fault e"
  unfolding decode_op_def
  by (auto split: if_splits
           dest: fill_run_Inl back_reference_Inl additive_blend_Inl literal_copy_Inl)

lemma decompress_loop_Inl: "decompress_loop inp st = Inl e \<Longrightarrow> read_fault e"
proof (induction inp st rule: decompress_loop.induct)
  case (1 inp st)
  show ?case
  proof (cases "output_ptr st < length (output_buf st) \<and> input_ptr st < length inp")
    case True
    with "1.prems" have
      "decode_op inp (inp ! input_ptr st) (st\<lparr>input_ptr := input_ptr st + 1\<rparr>) = Inl e \<or>
       (\<exists>x. decode_op inp (inp ! input_ptr st) (st\<lparr>input_ptr := input_ptr st + 1\<rparr>) = Inr x \<and>
            decompress_loop inp x = Inl e)"
      by (simp add: decompress_loop.simps [of inp st] bind_e_Inl_iff)
    then show ?thesis using "1.IH" [OF True] decode_op_Inl by blast
  next
    case False
    with "1.prems" show ?thesis by (simp add: decompress_loop.simps [of inp st])
  qed
qed

lemma decompress_raw_data_Inl: "decompress_raw_data inp n = Inl e \<Longrightarrow> read_fault e"
  by (auto simp: decompress_raw_data_def bind_e_Inl_iff dest: decompress_loop_Inl)

subsection \<open>Fill-run\<close>

text \<open>
  Claim C8. A fill-run that completes has advanced the input by exactly one byte for the fill
  value, after the one byte of the length extension when bit 5 is set, however many copies
  were written (first conjunct). When those operand bytes are in the input the fill-run does
  complete: it writes the value byte \<open>fill_run_length\<close> times, or up to the end of the
  output if that comes first (second conjunct). The control byte \<open>C3\<close> has run length 5:
  followed by \<open>FF\<close> it writes five \<open>FF\<close> bytes and advances the input by one.
\<close>

theorem fill_run_consumes_one_value_byte:
  "(fill_run inp byte st = Inr st' \<longrightarrow>
      input_ptr st' = input_ptr st + (if byte AND 0x20 \<noteq> 0 then 1 else 0) + 1) \<and>
   (input_ptr st + (if byte AND 0x20 \<noteq> 0 then 1 else 0) < length inp \<and>
    output_ptr st \<le> length (output_buf st) \<longrightarrow>
      (\<exists>st2. fill_run inp byte st = Inr st2 \<and>
         input_ptr st2 = input_ptr st + (if byte AND 0x20 \<noteq> 0 then 1 else 0) + 1 \<and>
         output_ptr st2 =
           min (length (output_buf st)) (output_ptr st + fill_run_length inp byte st) \<and>
         length (output_buf st2) = length (output_buf st) \<and>
         (\<forall>i. output_buf st2 ! i =
                (if output_ptr st \<le> i \<and> i < output_ptr st2
                 then inp ! (input_ptr st + (if byte AND 0x20 \<noteq> 0 then 1 else 0))
                 else output_buf st ! i))))"
proof (intro conjI impI)
  assume a: "fill_run inp byte st = Inr st'"
  then obtain reps st1 st2 where
    x: "extended_count inp byte (unat (byte AND 0x1F) + 2) st = Inr (reps, st1)"
    and l: "fill_loop inp reps st1 = Inr st2"
    and e: "st' = st2\<lparr>input_ptr := input_ptr st2 + 1\<rparr>"
    unfolding fill_run_def by (auto simp only: bind_e_Inr_iff prod.case sum.inject)
  from extended_count_Inr [OF x] fill_loop_input_ptr [OF l] e
  show "input_ptr st' = input_ptr st + (if byte AND 0x20 \<noteq> 0 then 1 else 0) + 1"
    by simp
next
  assume "input_ptr st + (if byte AND 0x20 \<noteq> 0 then 1 else 0) < length inp \<and>
    output_ptr st \<le> length (output_buf st)"
  then have "input_ptr st + (if byte AND 0x20 \<noteq> 0 then 1 else 0) < length inp"
    and "output_ptr st \<le> length (output_buf st)" by simp_all
  then show "\<exists>st2. fill_run inp byte st = Inr st2 \<and>
         input_ptr st2 = input_ptr st + (if byte AND 0x20 \<noteq> 0 then 1 else 0) + 1 \<and>
         output_ptr st2 =
           min (length (output_buf st)) (output_ptr st + fill_run_length inp byte st) \<and>
         length (output_buf st2) = length (output_buf st) \<and>
         (\<forall>i. output_buf st2 ! i =
                (if output_ptr st \<le> i \<and> i < output_ptr st2
                 then inp ! (input_ptr st + (if byte AND 0x20 \<noteq> 0 then 1 else 0))
                 else output_buf st ! i))"
    by (rule fill_run_total)
qed

theorem fill_run_consumes_one_value_byte_witness:
  "fill_run [0xC3, 0xFF] 0xC3 \<lparr>input_ptr = 1, output_ptr = 0, output_buf = [0, 0, 0, 0, 0]\<rparr> =
     Inr \<lparr>input_ptr = 2, output_ptr = 5, output_buf = [0xFF, 0xFF, 0xFF, 0xFF, 0xFF]\<rparr> \<and>
   input_ptr \<lparr>input_ptr = 2, output_ptr = 5, output_buf = [0xFF, 0xFF, 0xFF, 0xFF, 0xFF :: u8]\<rparr> =
     input_ptr \<lparr>input_ptr = 1, output_ptr = 0, output_buf = [0, 0, 0, 0, 0 :: u8]\<rparr> + 0 + 1 \<and>
   fill_run [0xC3, 0xFF] 0xC3 \<lparr>input_ptr = 1, output_ptr = 0, output_buf = [0, 0]\<rparr> =
     Inr \<lparr>input_ptr = 2, output_ptr = 2, output_buf = [0xFF, 0xFF]\<rparr>"
proof -
  have h: "fill_run [0xC3, 0xFF] 0xC3 \<lparr>input_ptr = 1, output_ptr = 0, output_buf = [0, 0, 0, 0, 0]\<rparr> =
     Inr \<lparr>input_ptr = 2, output_ptr = 5, output_buf = [0xFF, 0xFF, 0xFF, 0xFF, 0xFF]\<rparr>"
    by code_simp
  have h2: "fill_run [0xC3, 0xFF] 0xC3 \<lparr>input_ptr = 1, output_ptr = 0, output_buf = [0, 0]\<rparr> =
     Inr \<lparr>input_ptr = 2, output_ptr = 2, output_buf = [0xFF, 0xFF]\<rparr>"
    by code_simp
  from h fill_run_consumes_one_value_byte
    [of "[0xC3, 0xFF]" "0xC3" "\<lparr>input_ptr = 1, output_ptr = 0, output_buf = [0, 0, 0, 0, 0]\<rparr>"
        "\<lparr>input_ptr = 2, output_ptr = 5, output_buf = [0xFF, 0xFF, 0xFF, 0xFF, 0xFF]\<rparr>"]
  have "input_ptr \<lparr>input_ptr = 2, output_ptr = 5, output_buf = [0xFF, 0xFF, 0xFF, 0xFF, 0xFF :: u8]\<rparr> =
     input_ptr \<lparr>input_ptr = 1, output_ptr = 0, output_buf = [0, 0, 0, 0, 0 :: u8]\<rparr> + 0 + 1"
    by simp
  with h h2 show ?thesis by simp
qed

subsection \<open>Additive blend\<close>

text \<open>
  Claim C1, as amended. The spec says every repetition adds the window onto the same span
  and the output position advances by the block size once. In the code each write is
  \<open>*output_ptr++ += input_ptr[i]\<close>, so the output position advances with every byte of
  every repetition: the repetitions add the window onto successive spans, the output position
  ends \<open>repetitions * size\<close> further (or at the end of the output), and byte \<open>j\<close> of
  the written range receives window byte \<open>(j - start) mod size\<close>. The input position
  advances by one count byte and one block.
\<close>

theorem additive_blend_successive_spans:
  assumes "input_ptr st + 1 + (unat (byte AND 0x3F) + 2) \<le> length inp"
    and "output_ptr st \<le> length (output_buf st)"
  shows "\<exists>st'. additive_blend inp byte st = Inr st' \<and>
           input_ptr st' = input_ptr st + 1 + (unat (byte AND 0x3F) + 2) \<and>
           output_ptr st' =
             min (length (output_buf st))
                 (output_ptr st + (unat (inp ! input_ptr st) + 1) * (unat (byte AND 0x3F) + 2)) \<and>
           length (output_buf st') = length (output_buf st) \<and>
           (\<forall>j. output_buf st' ! j =
                  (if output_ptr st \<le> j \<and> j < output_ptr st'
                   then output_buf st ! j +
                        inp ! (input_ptr st + 1 + (j - output_ptr st) mod (unat (byte AND 0x3F) + 2))
                   else output_buf st ! j))"
  using assms by (rule additive_blend_total)

theorem additive_blend_successive_spans_witness:
  "input_ptr \<lparr>input_ptr = 1, output_ptr = 0, output_buf = [0, 0, 0, 0 :: u8]\<rparr> + 1 +
       (unat ((0x40 :: u8) AND 0x3F) + 2) \<le> length [0x40, 0x01, 0x01, 0x02 :: u8] \<and>
   additive_blend [0x40, 0x01, 0x01, 0x02] 0x40
       \<lparr>input_ptr = 1, output_ptr = 0, output_buf = [0, 0, 0, 0]\<rparr> =
     Inr \<lparr>input_ptr = 4, output_ptr = 4, output_buf = [1, 2, 1, 2]\<rparr>"
proof -
  let ?st = "\<lparr>input_ptr = 1, output_ptr = 0, output_buf = [0, 0, 0, 0 :: u8]\<rparr>"
  let ?inp = "[0x40, 0x01, 0x01, 0x02 :: u8]"
  have h1: "input_ptr ?st + 1 + (unat ((0x40 :: u8) AND 0x3F) + 2) \<le> length ?inp" by simp
  have h2: "output_ptr ?st \<le> length (output_buf ?st)" by simp
  from additive_blend_successive_spans [OF h1 h2] obtain st' where
    r: "additive_blend ?inp 0x40 ?st = Inr st'" and "output_ptr st' = 4"
    by auto
  moreover have "additive_blend ?inp 0x40 ?st =
      Inr \<lparr>input_ptr = 4, output_ptr = 4, output_buf = [1, 2, 1, 2]\<rparr>"
    by code_simp
  ultimately show ?thesis using h1 by simp
qed

text \<open>
  Claim C1 as the spec states it fails: control byte \<open>40\<close> (block size 2), count byte
  \<open>01\<close> (two repetitions) and window \<open>01 02\<close> on an output of four zero bytes give
  \<open>01 02 01 02\<close> with the output position at 4; adding twice onto the same span would give
  \<open>02 04 00 00\<close> with the output position at 2.
\<close>

theorem additive_blend_same_span_counterexample:
  "additive_blend [0x40, 0x01, 0x01, 0x02] 0x40
       \<lparr>input_ptr = 1, output_ptr = 0, output_buf = [0, 0, 0, 0]\<rparr> =
     Inr \<lparr>input_ptr = 4, output_ptr = 4, output_buf = [1, 2, 1, 2]\<rparr> \<and>
   additive_blend_same_span [0x40, 0x01, 0x01, 0x02] 0x40
       \<lparr>input_ptr = 1, output_ptr = 0, output_buf = [0, 0, 0, 0]\<rparr> =
     Inr \<lparr>input_ptr = 4, output_ptr = 2, output_buf = [2, 4, 0, 0]\<rparr> \<and>
   additive_blend [0x40, 0x01, 0x01, 0x02] 0x40
       \<lparr>input_ptr = 1, output_ptr = 0, output_buf = [0, 0, 0, 0]\<rparr> \<noteq>
   additive_blend_same_span [0x40, 0x01, 0x01, 0x02] 0x40
       \<lparr>input_ptr = 1, output_ptr = 0, output_buf = [0, 0, 0, 0]\<rparr> \<and>
   decompress_raw_data [0x40, 0x01, 0x01, 0x02] 4 = Inr [1, 2, 1, 2]"
  by code_simp

subsection \<open>The main loop\<close>

lemma decompress_loop_ok: "decompress_loop inp st = Inr st' \<Longrightarrow> step_ok st st'"
proof (induction inp st rule: decompress_loop.induct)
  case (1 inp st)
  show ?case
  proof (cases "output_ptr st < length (output_buf st) \<and> input_ptr st < length inp")
    case True
    with "1.prems" obtain x where
      d: "decode_op inp (inp ! input_ptr st) (st\<lparr>input_ptr := input_ptr st + 1\<rparr>) = Inr x"
      and r: "decompress_loop inp x = Inr st'"
      by (auto simp: decompress_loop.simps [of inp st] bind_e_Inr_iff)
    have "step_ok st x"
      using input_ptr_update_ok decode_op_ok [OF d] by (rule step_ok_trans)
    then show ?thesis using "1.IH" [OF True d r] by (rule step_ok_trans)
  next
    case False
    with "1.prems" show ?thesis by (simp add: decompress_loop.simps [of inp st])
  qed
qed

lemma decompress_loop_exit:
  "decompress_loop inp st = Inr st' \<Longrightarrow>
     \<not> (output_ptr st' < length (output_buf st') \<and> input_ptr st' < length inp)"
proof (induction inp st rule: decompress_loop.induct)
  case (1 inp st)
  show ?case
  proof (cases "output_ptr st < length (output_buf st) \<and> input_ptr st < length inp")
    case True
    with "1.prems" obtain x where
      d: "decode_op inp (inp ! input_ptr st) (st\<lparr>input_ptr := input_ptr st + 1\<rparr>) = Inr x"
      and r: "decompress_loop inp x = Inr st'"
      by (auto simp: decompress_loop.simps [of inp st] bind_e_Inr_iff)
    show ?thesis by (rule "1.IH" [OF True d r])
  next
    case False
    with "1.prems" show ?thesis by (simp add: decompress_loop.simps [of inp st])
  qed
qed

lemma decompress_raw_data_eq:
  "decompress_loop inp (initial_state n) = Inr st \<Longrightarrow> decompress_raw_data inp n = Inr (output_buf st)"
  by (simp add: decompress_raw_data_def)

text \<open>
  Claim C2, as amended. The spec says that \<open>decompress\<close> returns exactly
  \<open>expected_output_size\<close> bytes when the input fills the output and strictly fewer bytes
  when the input is exhausted first. The code allocates the whole buffer before the loop and
  returns it whole. For every input and size, unless the run reads outside a buffer, it
  returns exactly \<open>expected_output_size\<close> bytes in both cases: when the loop stops with the
  output full (\<open>output_ptr = n\<close>) and when it stops with the input exhausted and the
  output not full.
\<close>

theorem decompress_length_both_cases:
  "(\<exists>st. decompress_loop inp (initial_state n) = Inr st \<and>
         decompress_raw_data inp n = Inr (output_buf st) \<and> length (output_buf st) = n \<and>
         (output_ptr st = n \<or> (output_ptr st < n \<and> length inp \<le> input_ptr st))) \<or>
   decompress_raw_data inp n = Inl ReadPastInput \<or>
   decompress_raw_data inp n = Inl ReadOutsideOutput"
proof (cases "decompress_loop inp (initial_state n)")
  case (Inl e)
  with decompress_loop_Inl [of inp "initial_state n" e] show ?thesis
    by (auto simp: decompress_raw_data_def read_fault_def)
next
  case (Inr st)
  from decompress_loop_ok [OF Inr] have "length (output_buf st) = n" and "output_ptr st \<le> n"
    by (simp_all add: step_ok_def initial_state_def bstr_alloc_def)
  with decompress_loop_exit [OF Inr] decompress_raw_data_eq [OF Inr] Inr show ?thesis by auto
qed

theorem decompress_length_both_cases_witness:
  "decompress_loop [0x00, 0x41] (initial_state 3) =
     Inr \<lparr>input_ptr = 2, output_ptr = 1, output_buf = [0x41, 0, 0]\<rparr> \<and>
   decompress_raw_data [0x00, 0x41] 3 = Inr [0x41, 0, 0] \<and>
   length [0x41, 0, 0 :: u8] = 3 \<and>
   length [0x00, 0x41 :: u8] \<le> 2 \<and>
   decompress_loop [0x03, 0x41, 0x42, 0x43, 0x44] (initial_state 3) =
     Inr \<lparr>input_ptr = 4, output_ptr = 3, output_buf = [0x41, 0x42, 0x43]\<rparr> \<and>
   decompress_raw_data [0x03, 0x41, 0x42, 0x43, 0x44] 3 = Inr [0x41, 0x42, 0x43]"
proof -
  have h: "decompress_loop [0x00, 0x41] (initial_state 3) =
     Inr \<lparr>input_ptr = 2, output_ptr = 1, output_buf = [0x41, 0, 0]\<rparr>"
    by code_simp
  have g: "decompress_loop [0x03, 0x41, 0x42, 0x43, 0x44] (initial_state 3) =
     Inr \<lparr>input_ptr = 4, output_ptr = 3, output_buf = [0x41, 0x42, 0x43]\<rparr>"
    by code_simp
  from decompress_length_both_cases [of "[0x00, 0x41]" 3] h
  have a: "decompress_raw_data [0x00, 0x41] 3 = Inr [0x41, 0, 0] \<and>
    length [0x41, 0, 0 :: u8] = 3 \<and> length [0x00, 0x41 :: u8] \<le> 2"
    by (auto simp: decompress_raw_data_def)
  from decompress_length_both_cases [of "[0x03, 0x41, 0x42, 0x43, 0x44]" 3] g
  have b: "decompress_raw_data [0x03, 0x41, 0x42, 0x43, 0x44] 3 = Inr [0x41, 0x42, 0x43]"
    by (auto simp: decompress_raw_data_def)
  from h g a b show ?thesis by simp
qed

text \<open>
  Claim C2 as the spec states it fails: the input \<open>00 41\<close> (a literal copy of one byte)
  with expected size 3 is exhausted after one output byte, and the result still has 3 bytes,
  not fewer.
\<close>

theorem decompress_not_shorter_counterexample:
  "decompress_loop [0x00, 0x41] (initial_state 3) =
     Inr \<lparr>input_ptr = 2, output_ptr = 1, output_buf = [0x41, 0, 0]\<rparr> \<and>
   decompress_raw_data [0x00, 0x41] 3 = Inr [0x41, 0, 0] \<and>
   \<not> length [0x41, 0, 0 :: u8] < 3"
  by code_simp

text \<open>
  Claim C10. For every input and size, unless the run reads outside a buffer,
  \<open>decompress_raw_data\<close> returns a buffer of exactly \<open>expected_output_size\<close> bytes, also
  when the input ran out first. Every write goes through \<open>*output_ptr++\<close>, so the positions
  never written are those at or after the final \<open>output_ptr\<close>; each of them still holds the
  zero byte of the allocation.
\<close>

theorem decompress_zero_tail:
  "(\<exists>st. decompress_loop inp (initial_state n) = Inr st \<and>
         decompress_raw_data inp n = Inr (output_buf st) \<and> length (output_buf st) = n \<and>
         output_ptr st \<le> n \<and>
         (\<forall>i. output_ptr st \<le> i \<and> i < n \<longrightarrow> output_buf st ! i = 0)) \<or>
   decompress_raw_data inp n = Inl ReadPastInput \<or>
   decompress_raw_data inp n = Inl ReadOutsideOutput"
proof (cases "decompress_loop inp (initial_state n)")
  case (Inl e)
  with decompress_loop_Inl [of inp "initial_state n" e] show ?thesis
    by (auto simp: decompress_raw_data_def read_fault_def)
next
  case (Inr st)
  from decompress_loop_ok [OF Inr] have "length (output_buf st) = n" and "output_ptr st \<le> n"
    and "\<forall>i. output_ptr st \<le> i \<longrightarrow> output_buf st ! i = replicate n 0 ! i"
    by (simp_all add: step_ok_def initial_state_def bstr_alloc_def)
  with decompress_raw_data_eq [OF Inr] Inr show ?thesis by auto
qed

theorem decompress_zero_tail_witness:
  "decompress_loop [0x00, 0x41] (initial_state 3) =
     Inr \<lparr>input_ptr = 2, output_ptr = 1, output_buf = [0x41, 0, 0]\<rparr> \<and>
   decompress_raw_data [0x00, 0x41] 3 = Inr [0x41, 0, 0] \<and>
   length [0x41, 0, 0 :: u8] = 3 \<and>
   [0x41, 0, 0 :: u8] ! 1 = 0 \<and> [0x41, 0, 0 :: u8] ! 2 = 0"
proof -
  have h: "decompress_loop [0x00, 0x41] (initial_state 3) =
     Inr \<lparr>input_ptr = 2, output_ptr = 1, output_buf = [0x41, 0, 0]\<rparr>"
    by code_simp
  from decompress_zero_tail [of "[0x00, 0x41]" 3] h
  have "decompress_raw_data [0x00, 0x41] 3 = Inr [0x41, 0, 0]"
    and "length [0x41, 0, 0 :: u8] = 3"
    and "\<forall>i. 1 \<le> i \<and> i < 3 \<longrightarrow> [0x41, 0, 0 :: u8] ! i = 0"
    by (auto simp: decompress_raw_data_def)
  with h show ?thesis by simp
qed

subsection \<open>Bounds\<close>

lemma copy_loop_cases:
  assumes "output_ptr st \<le> length (output_buf st)"
  shows "copy_loop lb k st = Inl ReadOutsideOutput \<or>
         (\<exists>st'. copy_loop lb k st = Inr st' \<and> input_ptr st' = input_ptr st \<and>
            output_ptr st' = min (length (output_buf st)) (output_ptr st + k) \<and>
            length (output_buf st') = length (output_buf st))"
  using assms
proof (induction k arbitrary: st)
  case 0
  then show ?case by auto
next
  case (Suc k)
  show ?case
  proof (cases "output_at (output_buf st) (int (output_ptr st) - lb)")
    case (Inl e)
    then have "e = ReadOutsideOutput" by (auto simp: output_at_def split: if_splits)
    with Inl show ?thesis by simp
  next
    case (Inr tmp)
    show ?thesis
    proof (cases "output_ptr st \<ge> length (output_buf st)")
      case True
      with Suc.prems Inr show ?thesis by auto
    next
      case False
      let ?st1 = "st\<lparr>output_buf := (output_buf st)[output_ptr st := tmp],
                      output_ptr := output_ptr st + 1\<rparr>"
      from False have lt: "output_ptr st < length (output_buf st)" by simp
      have step: "copy_loop lb (Suc k) st = copy_loop lb k ?st1"
        using False Inr by (simp add: put_output_Inr)
      from lt have "output_ptr ?st1 \<le> length (output_buf ?st1)" by simp
      from Suc.IH [OF this] step lt show ?thesis by auto
    qed
  qed
qed

lemma back_reference_cases:
  assumes "input_ptr st < length inp" and "output_ptr st \<le> length (output_buf st)"
  shows "back_reference inp byte st = Inl ReadOutsideOutput \<or>
         (\<exists>st2. back_reference inp byte st = Inr st2 \<and>
            input_ptr st2 = input_ptr st + 1 \<and>
            output_ptr st2 =
              min (length (output_buf st)) (output_ptr st + (unat (drop_bit 2 byte AND 0xF) + 2)) \<and>
            length (output_buf st2) = length (output_buf st))"
proof -
  let ?lb = "int (push_bit 8 (unat (byte AND 3))) + int (unat (inp ! input_ptr st)) + 1"
  let ?st1 = "st\<lparr>input_ptr := input_ptr st + 1\<rparr>"
  have pos: "\<not> ?lb < 0"
    using of_nat_0_le_iff [of "push_bit 8 (unat (byte AND 3))", where ?'a = int]
      of_nat_0_le_iff [of "unat (inp ! input_ptr st)", where ?'a = int]
    by linarith
  have e: "back_reference inp byte st = copy_loop ?lb (unat (drop_bit 2 byte AND 0xF) + 2) ?st1"
    unfolding back_reference_def Let_def
    by (simp only: input_at_Inr [OF assms(1)] bind_e_simps pos if_False)
  from assms(2) have "output_ptr ?st1 \<le> length (output_buf ?st1)" by simp
  from copy_loop_cases [OF this, of ?lb "unat (drop_bit 2 byte AND 0xF) + 2"] e
  show ?thesis by auto
qed

lemma decode_op_operands_present:
  assumes ip: "input_ptr st < length inp"
    and p: "op_extent inp (input_ptr st) = Some (ip', n)"
    and o: "output_ptr st \<le> length (output_buf st)"
  shows "decode_op inp (inp ! input_ptr st) (st\<lparr>input_ptr := input_ptr st + 1\<rparr>) =
           Inl ReadOutsideOutput \<or>
         (\<exists>x. decode_op inp (inp ! input_ptr st) (st\<lparr>input_ptr := input_ptr st + 1\<rparr>) = Inr x \<and>
           length (output_buf x) = length (output_buf st) \<and>
           output_ptr x = min (length (output_buf st)) (output_ptr st + n) \<and>
           (output_ptr st + n \<le> length (output_buf st) \<longrightarrow> input_ptr x = ip'))"
proof (cases "inp ! input_ptr st AND 0x80 \<noteq> 0 \<and> inp ! input_ptr st AND 0x40 = 0")
  case True
  let ?b = "inp ! input_ptr st"
  let ?st1 = "st\<lparr>input_ptr := input_ptr st + 1\<rparr>"
  from True p have a: "input_ptr ?st1 < length inp"
    and ip': "ip' = input_ptr st + 2"
    and n: "n = unat (drop_bit 2 ?b AND 0xF) + 2"
    by (auto simp: op_extent_def Let_def split: if_splits)
  from o have "output_ptr ?st1 \<le> length (output_buf ?st1)" by simp
  from back_reference_cases [OF a this, of ?b] True ip' n show ?thesis
    by (auto simp: decode_op_def)
next
  case False
  with p have "parse_op inp (input_ptr st) (output_ptr st) = Some (ip', n)"
    by (auto simp: parse_op_def)
  from decode_op_well_formed [OF ip this o] show ?thesis by blast
qed

lemma decompress_loop_operands_present:
  "operands_present_from inp (input_ptr st) \<Longrightarrow>
   output_ptr st \<le> length (output_buf st) \<Longrightarrow>
   decompress_loop inp st = Inl ReadOutsideOutput \<or> (\<exists>st'. decompress_loop inp st = Inr st')"
proof (induction inp st rule: decompress_loop.induct)
  case (1 inp st)
  show ?case
  proof (cases "output_ptr st < length (output_buf st) \<and> input_ptr st < length inp")
    case True
    with "1.prems"(1) obtain ip' n where
      p: "op_extent inp (input_ptr st) = Some (ip', n)"
      and w: "operands_present_from inp ip'"
      by (auto simp: operands_present_from.simps [of inp "input_ptr st"] split: option.splits)
    from True have ip: "input_ptr st < length inp" by simp
    let ?d = "decode_op inp (inp ! input_ptr st) (st\<lparr>input_ptr := input_ptr st + 1\<rparr>)"
    from decode_op_operands_present [OF ip p "1.prems"(2)]
    consider (fault) "?d = Inl ReadOutsideOutput"
      | (ok) x where "?d = Inr x" "length (output_buf x) = length (output_buf st)"
          "output_ptr x = min (length (output_buf st)) (output_ptr st + n)"
          "output_ptr st + n \<le> length (output_buf st) \<longrightarrow> input_ptr x = ip'"
      by blast
    then show ?thesis
    proof cases
      case fault
      with True show ?thesis by (simp add: decompress_loop.simps [of inp st])
    next
      case ok
      have "decompress_loop inp x = Inl ReadOutsideOutput \<or> (\<exists>st'. decompress_loop inp x = Inr st')"
      proof (cases "output_ptr st + n < length (output_buf st)")
        case T: True
        with ok w have "operands_present_from inp (input_ptr x)" by simp
        moreover from ok have "output_ptr x \<le> length (output_buf x)" by simp
        ultimately show ?thesis using "1.IH" [OF True ok(1)] by simp
      next
        case False
        with ok have "\<not> output_ptr x < length (output_buf x)" by simp
        then show ?thesis by (simp add: decompress_loop.simps [of inp x])
      qed
      with True ok(1) show ?thesis by (simp add: decompress_loop.simps [of inp st])
    qed
  next
    case False
    then show ?thesis by (auto simp: decompress_loop.simps [of inp st])
  qed
qed

lemma well_formed_operands_present:
  "well_formed_from inp ip opos \<Longrightarrow> operands_present_from inp ip"
proof (induction inp ip opos rule: well_formed_from.induct)
  case (1 inp ip opos)
  show ?case
  proof (cases "ip < length inp")
    case False
    then show ?thesis by (simp add: operands_present_from.simps [of inp ip])
  next
    case True
    with "1.prems" obtain ip' n where
      p: "parse_op inp ip opos = Some (ip', n)" and w: "well_formed_from inp ip' (opos + n)"
      by (auto simp: well_formed_from.simps [of inp ip] split: option.splits)
    from p have "op_extent inp ip = Some (ip', n)"
      by (auto simp: parse_op_def split: if_splits)
    with True "1.IH" [OF True p refl w] show ?thesis
      by (simp add: operands_present_from.simps [of inp ip])
  qed
qed

text \<open>
  Claim C3. Every access of the model is checked, and the code's own tests come first, as
  in the source. For every input the run never writes at or past \<open>expected_output_size\<close>
  (the result is never \<open>WritePastOutput\<close>). For every input whose operations have their
  operand bytes inside the input, and every expected output size, the run never reads at or
  past the end of the input (the result is never \<open>ReadPastInput\<close>). For every well-formed
  input, where in addition no back-reference reaches before the start of the output, the run
  makes no access outside a buffer at all: it returns, with the whole buffer; a full output
  and an exhausted input both end the loop.
\<close>

theorem decompress_stays_in_bounds:
  "decompress_raw_data inp n \<noteq> Inl WritePastOutput \<and>
   (operands_present inp \<longrightarrow> decompress_raw_data inp n \<noteq> Inl ReadPastInput) \<and>
   (well_formed inp \<longrightarrow> operands_present inp \<and>
      (\<exists>out. decompress_raw_data inp n = Inr out \<and> length out = n))"
proof (intro conjI impI)
  show "decompress_raw_data inp n \<noteq> Inl WritePastOutput"
    using decompress_raw_data_Inl [of inp n WritePastOutput] by (auto simp: read_fault_def)
next
  assume "operands_present inp"
  then have "operands_present_from inp (input_ptr (initial_state n))"
    by (simp add: operands_present_def initial_state_def)
  moreover have "output_ptr (initial_state n) \<le> length (output_buf (initial_state n))"
    by (simp add: initial_state_def)
  ultimately have "decompress_loop inp (initial_state n) = Inl ReadOutsideOutput \<or>
      (\<exists>st'. decompress_loop inp (initial_state n) = Inr st')"
    by (rule decompress_loop_operands_present)
  then show "decompress_raw_data inp n \<noteq> Inl ReadPastInput"
    by (auto simp: decompress_raw_data_def)
next
  assume "well_formed inp"
  then show "operands_present inp"
    by (simp add: well_formed_def operands_present_def well_formed_operands_present)
next
  assume "well_formed inp"
  then have "well_formed_from inp (input_ptr (initial_state n)) (output_ptr (initial_state n))"
    by (simp add: well_formed_def initial_state_def)
  moreover have "output_ptr (initial_state n) \<le> length (output_buf (initial_state n))"
    by (simp add: initial_state_def)
  ultimately obtain st where s: "decompress_loop inp (initial_state n) = Inr st"
    using decompress_loop_well_formed by blast
  from decompress_loop_ok [OF s] have "length (output_buf st) = n"
    by (simp add: step_ok_def initial_state_def bstr_alloc_def)
  with decompress_raw_data_eq [OF s]
  show "\<exists>out. decompress_raw_data inp n = Inr out \<and> length out = n" by simp
qed

theorem decompress_stays_in_bounds_witness:
  "well_formed [0x01, 0x41, 0x42, 0x88, 0x00, 0xC3, 0xFF, 0x40, 0x01, 0x01, 0x02] \<and>
   operands_present [0x01, 0x41, 0x42, 0x88, 0x00, 0xC3, 0xFF, 0x40, 0x01, 0x01, 0x02] \<and>
   decompress_raw_data [0x01, 0x41, 0x42, 0x88, 0x00, 0xC3, 0xFF, 0x40, 0x01, 0x01, 0x02] 12 =
     Inr [0x41, 0x42, 0x42, 0x42, 0x42, 0x42, 0xFF, 0xFF, 0xFF, 0xFF, 0xFF, 0x01] \<and>
   length [0x41, 0x42, 0x42, 0x42, 0x42, 0x42, 0xFF, 0xFF, 0xFF, 0xFF, 0xFF, 0x01 :: u8] = 12 \<and>
   operands_present [0x80, 0x00] \<and>
   decompress_raw_data [0x80, 0x00] 8 = Inl ReadOutsideOutput"
proof -
  let ?inp = "[0x01, 0x41, 0x42, 0x88, 0x00, 0xC3, 0xFF, 0x40, 0x01, 0x01, 0x02 :: u8]"
  have h: "well_formed ?inp" by code_simp
  have v: "decompress_raw_data ?inp 12 =
     Inr [0x41, 0x42, 0x42, 0x42, 0x42, 0x42, 0xFF, 0xFF, 0xFF, 0xFF, 0xFF, 0x01]"
    by code_simp
  have p: "operands_present [0x80, 0x00]" by code_simp
  have w: "decompress_raw_data [0x80, 0x00] 8 = Inl ReadOutsideOutput" by code_simp
  from h decompress_stays_in_bounds [of ?inp 12]
  have "operands_present ?inp"
    and "\<exists>out. decompress_raw_data ?inp 12 = Inr out \<and> length out = 12" by simp_all
  with v have "operands_present ?inp"
    and "length [0x41, 0x42, 0x42, 0x42, 0x42, 0x42, 0xFF, 0xFF, 0xFF, 0xFF, 0xFF, 0x01 :: u8] = 12"
    by simp_all
  with h v p w show ?thesis by simp
qed

section \<open>Properties of the LND file decoder\<close>

lemma seek_Inl: "seek c n = Inl e \<Longrightarrow> e = EofError"
  by (auto simp: seek_def split: if_splits)

lemma skip_Inl: "skip c n = Inl e \<Longrightarrow> e = EofError"
  by (auto simp: skip_def split: if_splits)

lemma read_Inl: "read c n = Inl e \<Longrightarrow> e = EofError"
  by (auto simp: read_def split: if_splits)

lemma read_u32_le_Inl: "read_u32_le c = Inl e \<Longrightarrow> e = EofError"
  by (auto simp: read_u32_le_def bind_e_Inl_iff dest: read_Inl)

lemma length_magic: "length magic = 4"
  by (simp add: magic_def)

lemma decode_impl_Inl: "decode_impl f = Inl e \<Longrightarrow> e = EofError \<or> read_fault e"
  unfolding decode_impl_def
  by (auto simp: bind_e_Inl_iff read_to_eof_def
           dest: seek_Inl skip_Inl read_u32_le_Inl decompress_raw_data_Inl)

text \<open>
  Claim C4, as amended. The spec says that decoding fails with CorruptData when the signature
  does not match. \<open>is_recognized_impl\<close> compares the first four bytes and returns false on
  a mismatch (first conjunct, for a file of at least four bytes with the cursor at the start).
  \<open>decode_impl\<close> does not look at the signature: it seeks past the first four bytes, so it
  never fails with CorruptData (second conjunct) and its result does not depend on those
  bytes (third conjunct). Rejecting a file is left to whoever calls the recognition first.
\<close>

theorem lnd_signature_not_checked_by_decode:
  "(pos (io f) = 0 \<and> 4 \<le> length (buffer (io f)) \<and> take 4 (buffer (io f)) \<noteq> magic \<longrightarrow>
      is_recognized_impl f = Inr (False, f\<lparr>io := (io f)\<lparr>pos := 4\<rparr>\<rparr>)) \<and>
   decode_impl f \<noteq> Inl (CorruptDataError msg) \<and>
   (length sig = 4 \<and> length sig' = 4 \<longrightarrow>
      decode_impl \<lparr>name = n, io = \<lparr>buffer = sig @ rest, pos = p\<rparr>\<rparr> =
      decode_impl \<lparr>name = n, io = \<lparr>buffer = sig' @ rest, pos = p'\<rparr>\<rparr>)"
proof (intro conjI impI)
  assume "pos (io f) = 0 \<and> 4 \<le> length (buffer (io f)) \<and> take 4 (buffer (io f)) \<noteq> magic"
  moreover have "length magic = 4" by (simp add: magic_def)
  ultimately show "is_recognized_impl f = Inr (False, f\<lparr>io := (io f)\<lparr>pos := 4\<rparr>\<rparr>)"
    by (simp add: is_recognized_impl_def read_def io_size_def)
next
  show "decode_impl f \<noteq> Inl (CorruptDataError msg)"
    using decode_impl_Inl [of f "CorruptDataError msg"] by (auto simp: read_fault_def)
next
  assume "length sig = 4 \<and> length sig' = 4"
  then show "decode_impl \<lparr>name = n, io = \<lparr>buffer = sig @ rest, pos = p\<rparr>\<rparr> =
      decode_impl \<lparr>name = n, io = \<lparr>buffer = sig' @ rest, pos = p'\<rparr>\<rparr>"
    by (simp add: decode_impl_def seek_def skip_def read_u32_le_def read_def read_to_eof_def
          io_size_def length_magic)
qed

theorem lnd_signature_not_checked_by_decode_witness:
  "pos (io \<lparr>name = ''a'', io = \<lparr>buffer = [0x58, 0x58, 0x58, 0x58, 0, 0, 0, 0, 2, 0, 0, 0,
        0, 0, 0, 0, 0x01, 0x41, 0x42], pos = 0\<rparr>\<rparr>) = 0 \<and>
   take 4 [0x58, 0x58, 0x58, 0x58, 0, 0, 0, 0, 2, 0, 0, 0, 0, 0, 0, 0, 0x01, 0x41, 0x42] \<noteq> magic \<and>
   is_recognized_impl \<lparr>name = ''a'', io = \<lparr>buffer = [0x58, 0x58, 0x58, 0x58, 0, 0, 0, 0, 2, 0, 0, 0,
        0, 0, 0, 0, 0x01, 0x41, 0x42], pos = 0\<rparr>\<rparr> =
     Inr (False, \<lparr>name = ''a'', io = \<lparr>buffer = [0x58, 0x58, 0x58, 0x58, 0, 0, 0, 0, 2, 0, 0, 0,
        0, 0, 0, 0, 0x01, 0x41, 0x42], pos = 4\<rparr>\<rparr>) \<and>
   decode_impl \<lparr>name = ''a'', io = \<lparr>buffer = [0x58, 0x58, 0x58, 0x58] @ [0, 0, 0, 0, 2, 0, 0, 0,
        0, 0, 0, 0, 0x01, 0x41, 0x42], pos = 0\<rparr>\<rparr> =
   decode_impl \<lparr>name = ''a'', io = \<lparr>buffer = [0x6C, 0x6E, 0x64, 0x00] @ [0, 0, 0, 0, 2, 0, 0, 0,
        0, 0, 0, 0, 0x01, 0x41, 0x42], pos = 0\<rparr>\<rparr>"
proof -
  let ?b = "[0x58, 0x58, 0x58, 0x58, 0, 0, 0, 0, 2, 0, 0, 0, 0, 0, 0, 0, 0x01, 0x41, 0x42 :: u8]"
  let ?f = "\<lparr>name = ''a'', io = \<lparr>buffer = ?b, pos = 0\<rparr>\<rparr>"
  have h: "pos (io ?f) = 0 \<and> 4 \<le> length (buffer (io ?f)) \<and> take 4 (buffer (io ?f)) \<noteq> magic"
    by (simp add: magic_def)
  have l: "length [0x58, 0x58, 0x58, 0x58 :: u8] = 4 \<and> length [0x6C, 0x6E, 0x64, 0x00 :: u8] = 4"
    by simp
  note t = lnd_signature_not_checked_by_decode
    [where f = ?f and sig = "[0x58, 0x58, 0x58, 0x58]" and sig' = "[0x6C, 0x6E, 0x64, 0x00]"
       and n = "''a''" and rest = "[0, 0, 0, 0, 2, 0, 0, 0, 0, 0, 0, 0, 0x01, 0x41, 0x42]"
       and p = 0 and p' = 0]
  from t h have "is_recognized_impl ?f = Inr (False, ?f\<lparr>io := (io ?f)\<lparr>pos := 4\<rparr>\<rparr>)"
    by blast
  moreover from t l have "decode_impl \<lparr>name = ''a'', io = \<lparr>buffer = [0x58, 0x58, 0x58, 0x58] @ [0, 0, 0, 0, 2, 0, 0, 0,
        0, 0, 0, 0, 0x01, 0x41, 0x42], pos = 0\<rparr>\<rparr> =
     decode_impl \<lparr>name = ''a'', io = \<lparr>buffer = [0x6C, 0x6E, 0x64, 0x00] @ [0, 0, 0, 0, 2, 0, 0, 0,
        0, 0, 0, 0, 0x01, 0x41, 0x42], pos = 0\<rparr>\<rparr>"
    by blast
  ultimately show ?thesis using h by simp
qed

text \<open>
  Claim C4 as the spec states it fails: a file that starts with \<open>XXXX\<close> instead of the
  signature, declares two bytes and carries a literal copy of \<open>AB\<close> is not recognized, and
  \<open>decode_impl\<close> decodes it to \<open>AB\<close> instead of failing.
\<close>

theorem lnd_decode_bad_signature_counterexample:
  "take 4 [0x58, 0x58, 0x58, 0x58, 0, 0, 0, 0, 2, 0, 0, 0, 0, 0, 0, 0, 0x01, 0x41, 0x42] \<noteq> magic \<and>
   decode_impl \<lparr>name = ''a'', io = \<lparr>buffer = [0x58, 0x58, 0x58, 0x58, 0, 0, 0, 0, 2, 0, 0, 0,
        0, 0, 0, 0, 0x01, 0x41, 0x42], pos = 0\<rparr>\<rparr> =
     Inr \<lparr>name = ''a'', io = \<lparr>buffer = [0x41, 0x42], pos = 0\<rparr>\<rparr> \<and>
   is_recognized_impl \<lparr>name = ''a'', io = \<lparr>buffer = [0x58, 0x58, 0x58, 0x58, 0, 0, 0, 0, 2, 0, 0, 0,
        0, 0, 0, 0, 0x01, 0x41, 0x42], pos = 0\<rparr>\<rparr> =
     Inr (False, \<lparr>name = ''a'', io = \<lparr>buffer = [0x58, 0x58, 0x58, 0x58, 0, 0, 0, 0, 2, 0, 0, 0,
        0, 0, 0, 0, 0x01, 0x41, 0x42], pos = 4\<rparr>\<rparr>)"
proof -
  have d: "decompress_raw_data [0x01, 0x41, 0x42] 2 = Inr [0x41, 0x42]"
    by code_simp
  show ?thesis
    by (simp add: decode_impl_def is_recognized_impl_def seek_def skip_def read_u32_le_def
          read_def read_to_eof_def io_size_def magic_def le_nat_def d)
qed

section \<open>Properties of the FSN filter\<close>

text \<open>
  Claim C9. The filter never fails and keeps the length of the buffer; byte \<open>i\<close> becomes
  \<open>b[i] XOR 0x36\<close>, XORed with 3 as well at index \<open>0x2EA29\<close> and with 1 as well at index
  \<open>0x13\<close>, where these indices exist, that is where the buffer is longer than them. The
  key plays no part. A buffer of exactly \<open>0x2EA29\<close> bytes has no index \<open>0x2EA29\<close>, so
  none of its bytes receives the correction by 3 (its byte \<open>0x13\<close> still receives the
  correction by 1, as the first part of the claim says).
\<close>

theorem Xp3FilterFsn_decode_bytes:
  "\<exists>out. Xp3FilterFsn_decode f key =
           Inr (f\<lparr>io := (io f)\<lparr>buffer := out, pos := length (buffer (io f))\<rparr>\<rparr>) \<and>
         length out = length (buffer (io f)) \<and>
         (\<forall>i < length (buffer (io f)).
            out ! i = buffer (io f) ! i XOR 0x36 XOR (if i = 0x2EA29 then 3 else 0)
                        XOR (if i = 0x13 then 1 else 0)) \<and>
         (length (buffer (io f)) = 0x2EA29 \<longrightarrow>
            (\<forall>i < length (buffer (io f)).
               out ! i = buffer (io f) ! i XOR 0x36 XOR (if i = 0x13 then 1 else 0))) \<and>
         Xp3FilterFsn_decode f key' = Xp3FilterFsn_decode f key"
proof -
  define b where "b = buffer (io f)"
  define p1 where "p1 = map (\<lambda>b. b XOR 0x36) b"
  define p2 where "p2 = (if length b > 0x2ea29 then p1[0x2ea29 := p1 ! 0x2ea29 XOR 3] else p1)"
  define p3 where "p3 = (if length b > 0x13 then p2[0x13 := p2 ! 0x13 XOR 1] else p2)"
  have r: "Xp3FilterFsn_decode f k = Inr (f\<lparr>io := (io f)\<lparr>buffer := p3, pos := length b\<rparr>\<rparr>)" for k
    by (simp add: Xp3FilterFsn_decode_def seek_def read_def io_size_def io_write_def Let_def
          p3_def p2_def p1_def b_def)
  have l: "length p3 = length b" by (simp add: p3_def p2_def p1_def)
  have n: "p3 ! i = b ! i XOR 0x36 XOR (if i = 0x2EA29 then 3 else 0)
                        XOR (if i = 0x13 then 1 else 0)" if "i < length b" for i
  proof -
    consider "i = 0x2EA29" | "i = 0x13" | "i \<noteq> 0x2EA29 \<and> i \<noteq> 0x13" by blast
    then show ?thesis
    proof cases
      case 1
      with that show ?thesis by (simp add: p3_def p2_def p1_def nth_list_update xor.assoc)
    next
      case 2
      with that show ?thesis by (simp add: p3_def p2_def p1_def nth_list_update xor.assoc)
    next
      case 3
      with that show ?thesis by (simp add: p3_def p2_def p1_def nth_list_update)
    qed
  qed
  have s: "p3 ! i = b ! i XOR 0x36 XOR (if i = 0x13 then 1 else 0)"
    if "i < length b" and "length b = 0x2EA29" for i
    using n [OF that(1)] that by auto
  have e: "Xp3FilterFsn_decode f key' = Xp3FilterFsn_decode f key"
    by (simp only: r)
  show ?thesis
    unfolding b_def [symmetric]
    using r [of key] l n s e by blast
qed

theorem Xp3FilterFsn_decode_bytes_witness:
  "(\<exists>out. Xp3FilterFsn_decode \<lparr>name = ''a'', io = \<lparr>buffer = replicate 0x2EA30 0, pos = 0\<rparr>\<rparr> 7 =
            Inr \<lparr>name = ''a'', io = \<lparr>buffer = out, pos = 0x2EA30\<rparr>\<rparr> \<and>
          length out = 0x2EA30 \<and> out ! 0x2EA29 = 0x35 \<and> out ! 0x13 = 0x37 \<and> out ! 0 = 0x36) \<and>
   (\<exists>out. Xp3FilterFsn_decode \<lparr>name = ''a'', io = \<lparr>buffer = replicate 0x2EA29 0, pos = 0\<rparr>\<rparr> 7 =
            Inr \<lparr>name = ''a'', io = \<lparr>buffer = out, pos = 0x2EA29\<rparr>\<rparr> \<and>
          length out = 0x2EA29 \<and> out ! 0x2EA28 = 0x36 \<and> out ! 0x13 = 0x37)"
proof
  let ?f = "\<lparr>name = ''a'', io = \<lparr>buffer = replicate 0x2EA30 (0 :: u8), pos = 0\<rparr>\<rparr>"
  from Xp3FilterFsn_decode_bytes [of ?f 7 7] obtain out where
    r: "Xp3FilterFsn_decode ?f 7 = Inr \<lparr>name = ''a'', io = \<lparr>buffer = out, pos = 0x2EA30\<rparr>\<rparr>"
    and l: "length out = 0x2EA30"
    and n: "\<And>i. i < 0x2EA30 \<Longrightarrow> out ! i = replicate 0x2EA30 (0 :: u8) ! i XOR 0x36 XOR (if i = 0x2EA29 then 3 else 0)
                        XOR (if i = 0x13 then 1 else 0)"
    by auto
  from n [of "0x2EA29"] n [of "0x13"] n [of 0]
  have "out ! 0x2EA29 = 0x35" and "out ! 0x13 = 0x37" and "out ! 0 = 0x36" by simp_all
  with r l show "\<exists>out. Xp3FilterFsn_decode ?f 7 =
            Inr \<lparr>name = ''a'', io = \<lparr>buffer = out, pos = 0x2EA30\<rparr>\<rparr> \<and>
          length out = 0x2EA30 \<and> out ! 0x2EA29 = 0x35 \<and> out ! 0x13 = 0x37 \<and> out ! 0 = 0x36"
    by blast
next
  let ?f = "\<lparr>name = ''a'', io = \<lparr>buffer = replicate 0x2EA29 (0 :: u8), pos = 0\<rparr>\<rparr>"
  from Xp3FilterFsn_decode_bytes [of ?f 7 7] obtain out where
    r: "Xp3FilterFsn_decode ?f 7 = Inr \<lparr>name = ''a'', io = \<lparr>buffer = out, pos = 0x2EA29\<rparr>\<rparr>"
    and l: "length out = 0x2EA29"
    and n: "\<And>i. i < 0x2EA29 \<Longrightarrow> out ! i = replicate 0x2EA29 (0 :: u8) ! i XOR 0x36 XOR (if i = 0x13 then 1 else 0)"
    by auto
  from n [of "0x2EA28"] n [of "0x13"]
  have "out ! 0x2EA28 = 0x36" and "out ! 0x13 = 0x37" by simp_all
  with r l show "\<exists>out. Xp3FilterFsn_decode ?f 7 =
            Inr \<lparr>name = ''a'', io = \<lparr>buffer = out, pos = 0x2EA29\<rparr>\<rparr> \<and>
          length out = 0x2EA29 \<and> out ! 0x2EA28 = 0x36 \<and> out ! 0x13 = 0x37"
    by blast
qed

section \<open>Properties of the XP3 archive decoder\<close>

subsection \<open>Which errors the parts of the decoder can return\<close>

lemma avoids_bind:
  "avoids e m \<Longrightarrow> (\<And>x. m = Inr x \<Longrightarrow> avoids e (f x)) \<Longrightarrow> avoids e (bind_e m f)"
  by (cases m) (simp_all add: avoids_def)

lemma avoids_Inr: "avoids e (Inr x)"
  by (simp add: avoids_def)

lemma avoids_Inl: "e' \<noteq> e \<Longrightarrow> avoids e (Inl e')"
  by (simp add: avoids_def)

lemma avoids_if:
  "(c \<Longrightarrow> avoids e a) \<Longrightarrow> (\<not> c \<Longrightarrow> avoids e b) \<Longrightarrow> avoids e (if c then a else b)"
  by simp

lemma avoids_case_prod:
  "(\<And>a b. p = (a, b) \<Longrightarrow> avoids e (f a b)) \<Longrightarrow> avoids e (case p of (a, b) \<Rightarrow> f a b)"
  by (cases p) simp

lemma avoids_seek: "e \<noteq> EofError \<Longrightarrow> avoids e (seek c n)"
  by (simp add: avoids_def seek_def)

lemma avoids_skip: "e \<noteq> EofError \<Longrightarrow> avoids e (skip c n)"
  by (simp add: avoids_def skip_def)

lemma avoids_read: "e \<noteq> EofError \<Longrightarrow> avoids e (read c n)"
  by (simp add: avoids_def read_def)

lemma avoids_read_u8: "e \<noteq> EofError \<Longrightarrow> avoids e (read_u8 c)"
  unfolding read_u8_def by (intro avoids_bind avoids_read avoids_case_prod avoids_Inr)

lemma avoids_read_u16_le: "e \<noteq> EofError \<Longrightarrow> avoids e (read_u16_le c)"
  unfolding read_u16_le_def by (intro avoids_bind avoids_read avoids_case_prod avoids_Inr)

lemma avoids_read_u32_le: "e \<noteq> EofError \<Longrightarrow> avoids e (read_u32_le c)"
  unfolding read_u32_le_def by (intro avoids_bind avoids_read avoids_case_prod avoids_Inr)

lemma avoids_read_u64_le: "e \<noteq> EofError \<Longrightarrow> avoids e (read_u64_le c)"
  unfolding read_u64_le_def by (intro avoids_bind avoids_read avoids_case_prod avoids_Inr)

lemma avoids_zlib_inflate: "e \<noteq> InflateError \<Longrightarrow> avoids e (zlib_inflate inflate bs)"
  by (simp add: avoids_def zlib_inflate_def split: option.splits)

lemma avoids_convert_encoding: "e \<noteq> EncodingError \<Longrightarrow> avoids e (convert_encoding convert bs)"
  by (simp add: avoids_def convert_encoding_def split: option.splits)

lemmas avoids_intros =
  avoids_bind avoids_case_prod avoids_if avoids_Inr avoids_seek avoids_skip avoids_read
  avoids_read_u8 avoids_read_u16_le avoids_read_u32_le avoids_read_u64_le avoids_zlib_inflate
  avoids_convert_encoding


lemma avoids_read_raw_table: "avoids version_error (read_raw_table inflate c)"
  unfolding read_raw_table_def Let_def
  by (intro avoids_intros) simp_all

lemma avoids_read_info_chunk: "avoids version_error (read_info_chunk convert c)"
  unfolding read_info_chunk_def
  by (intro avoids_intros avoids_Inl) simp_all

lemma avoids_segm_loop:
  "e \<noteq> EofError \<Longrightarrow> e \<noteq> InflateError \<Longrightarrow>
     avoids e (segm_loop inflate sz initial_pos table_io arc_io acc)"
proof (induction inflate sz initial_pos table_io arc_io acc rule: segm_loop.induct)
  case (1 inflate segm_chunk_size initial_pos table_io arc_io full_data)
  show ?case
    apply (subst segm_loop.simps)
    apply (intro avoids_intros "1.prems")
    subgoal by (hypsubst, rule "1.IH"(1)) (assumption | rule refl | rule "1.prems")+
    subgoal by (hypsubst, rule "1.IH"(2)) (assumption | rule refl | rule "1.prems")+
    done
qed

lemma avoids_read_data_from_segm_chunk:
  "avoids version_error (read_data_from_segm_chunk inflate t a)"
  unfolding read_data_from_segm_chunk_def
  by (intro avoids_intros avoids_Inl avoids_segm_loop) simp_all

lemma avoids_read_key_from_adlr_chunk: "avoids version_error (read_key_from_adlr_chunk t)"
  unfolding read_key_from_adlr_chunk_def
  by (intro avoids_intros avoids_Inl) simp_all

lemma avoids_read_file: "avoids version_error (read_file inflate convert a t ff)"
  unfolding read_file_def Let_def
  by (intro avoids_intros avoids_Inl avoids_read_info_chunk avoids_read_data_from_segm_chunk
        avoids_read_key_from_adlr_chunk) simp_all

lemma unpack_loop_error:
  "snd (unpack_loop inflate convert ff a t saver) \<noteq> Some version_error"
proof (induction inflate convert ff a t saver rule: unpack_loop.induct)
  case (1 inflate convert filter_func arc_io table_io saver)
  show ?case
  proof (cases "tell table_io < io_size table_io")
    case False
    then show ?thesis
      by (simp add: unpack_loop.simps [of inflate convert filter_func arc_io table_io])
  next
    case True
    show ?thesis
    proof (cases "read_file inflate convert arc_io table_io filter_func")
      case (Inl e')
      with avoids_read_file [of inflate convert arc_io table_io filter_func]
      have "e' \<noteq> version_error" by (auto simp: avoids_def)
      with Inl True show ?thesis
        by (simp add: unpack_loop.simps [of inflate convert filter_func arc_io table_io])
    next
      case (Inr r)
      obtain f t' a' where r: "r = (f, t', a')" by (cases r) auto
      from "1.IH" [OF True Inr [unfolded r] refl refl] Inr True r show ?thesis
        by (simp add: unpack_loop.simps [of inflate convert filter_func arc_io table_io])
    qed
  qed
qed

subsection \<open>Version detection\<close>

lemma detect_version_result:
  assumes "23 \<le> io_size arc_io" and "pos arc_io \<le> io_size arc_io"
  shows "detect_version arc_io =
           Inr (if u32_at (buffer arc_io) 19 = 1 then 2 else 1, arc_io)"
  using assms
  by (simp add: detect_version_def tell_def seek_def read_u32_le_def read_def io_size_def
        Let_def u32_at_def)

lemma get_table_offset_v2:
  assumes "pos arc_io + 12 \<le> io_size arc_io"
  shows "get_table_offset arc_io 2 = Inl version_error \<longleftrightarrow>
           u32_at (buffer arc_io) (pos arc_io + 8) \<noteq> 1"
proof -
  define off :: u64 where "off = word_of_nat (le_nat (take 8 (drop (pos arc_io) (buffer arc_io))))"
  let ?io1 = "arc_io\<lparr>pos := pos arc_io + 8\<rparr>"
  let ?io2 = "arc_io\<lparr>pos := pos arc_io + 12\<rparr>"
  let ?rest = "bind_e (seek ?io2 (unat off))
                 (\<lambda>io3. bind_e (skip io3 1) (\<lambda>io4. bind_e (skip io4 8) (\<lambda>io5. read_u64_le io5)))"
  from assms have r1: "read_u64_le arc_io = Inr (off, ?io1)"
    by (simp add: read_u64_le_def read_def io_size_def off_def)
  from assms have r2: "read_u32_le ?io1 = Inr (u32_at (buffer arc_io) (pos arc_io + 8), ?io2)"
    by (simp add: read_u32_le_def read_def io_size_def u32_at_def)
  have n: "(2 :: int) \<noteq> 1" by simp
  have g: "get_table_offset arc_io 2 =
             (if u32_at (buffer arc_io) (pos arc_io + 8) \<noteq> 1 then Inl version_error else ?rest)"
    unfolding get_table_offset_def by (simp only: n if_False r1 r2 bind_e_simps prod.case)
  have "avoids version_error ?rest"
    by (intro avoids_intros) simp_all
  with g show ?thesis by (simp add: avoids_def)
qed

lemma get_table_offset_v1: "avoids (CorruptDataError msg) (get_table_offset arc_io 1)"
  by (simp add: get_table_offset_def avoids_read_u64_le)

lemma unpack_tail_avoids:
  assumes "avoids version_error g"
  shows "snd (case bind_e g (\<lambda>(table_offset, a3).
                   bind_e (seek a3 (unat table_offset)) (\<lambda>a4. read_raw_table inflate a4)) of
                Inl e \<Rightarrow> ([], Some e)
              | Inr (table_io, a5) \<Rightarrow> unpack_loop inflate convert ff a5 table_io [])
         \<noteq> Some version_error"
proof -
  let ?h = "bind_e g (\<lambda>(table_offset, a3).
              bind_e (seek a3 (unat table_offset)) (\<lambda>a4. read_raw_table inflate a4))"
  have a: "avoids version_error ?h"
    by (intro avoids_intros assms avoids_read_raw_table) simp_all
  show ?thesis
  proof (cases ?h)
    case (Inl e)
    with a show ?thesis by (simp add: avoids_def)
  next
    case (Inr r)
    then show ?thesis using unpack_loop_error by (cases r) simp
  qed
qed

lemma unpack_internal_version_error:
  assumes "pos (io arc_file) + 23 \<le> io_size (io arc_file)"
  shows "snd (unpack_internal inflate convert ff arc_file) = Some version_error \<longleftrightarrow>
           u32_at (buffer (io arc_file)) 19 = 1 \<and>
           u32_at (buffer (io arc_file)) (pos (io arc_file) + 19) \<noteq> 1"
proof -
  let ?a1 = "(io arc_file)\<lparr>pos := pos (io arc_file) + 11\<rparr>"
  let ?v = "if u32_at (buffer (io arc_file)) 19 = 1 then 2 else 1 :: int"
  from assms have s: "skip (io arc_file) (length xp3_magic) = Inr ?a1"
    by (simp add: skip_def xp3_magic_def io_size_def)
  from assms have "23 \<le> io_size ?a1" and "pos ?a1 \<le> io_size ?a1"
    by (simp_all add: io_size_def)
  from detect_version_result [OF this] have d: "detect_version ?a1 = Inr (?v, ?a1)" by simp
  have u: "unpack_internal inflate convert ff arc_file =
      (case bind_e (get_table_offset ?a1 ?v) (\<lambda>(table_offset, a3).
                   bind_e (seek a3 (unat table_offset)) (\<lambda>a4. read_raw_table inflate a4)) of
         Inl e \<Rightarrow> ([], Some e)
       | Inr (table_io, a5) \<Rightarrow> unpack_loop inflate convert ff a5 table_io [])"
    unfolding unpack_internal_def by (simp only: s d bind_e_simps prod.case)
  show ?thesis
  proof (cases "u32_at (buffer (io arc_file)) 19 = 1")
    case False
    then have "avoids version_error (get_table_offset ?a1 ?v)"
      by (simp add: get_table_offset_v1)
    from unpack_tail_avoids [OF this] False u show ?thesis by simp
  next
    case True
    from assms have b: "pos ?a1 + 12 \<le> io_size ?a1" by (simp add: io_size_def)
    have g: "get_table_offset ?a1 2 = Inl version_error \<longleftrightarrow>
               u32_at (buffer (io arc_file)) (pos (io arc_file) + 19) \<noteq> 1"
      using get_table_offset_v2 [OF b] by (simp add: ac_simps)
    show ?thesis
    proof (cases "u32_at (buffer (io arc_file)) (pos (io arc_file) + 19) = 1")
      case F: False
      with g have "get_table_offset ?a1 2 = Inl version_error"
        by simp
      with True F u show ?thesis by simp
    next
      case T: True
      with g have "avoids version_error (get_table_offset ?a1 2)"
        by (simp add: avoids_def)
      with True have "avoids version_error (get_table_offset ?a1 ?v)" by simp
      from unpack_tail_avoids [OF this] T u show ?thesis by simp
    qed
  qed
qed

text \<open>
  Claim C5. \<open>detect_version\<close> answers 2 exactly when the little-endian integer in bytes
  19 to 22 of the archive is 1, and leaves the cursor where it was (first conjunct; the
  archive must have those bytes). With version 2, \<open>get_table_offset\<close> fails with
  \<open>Unexpected XP3 version\<close> exactly when the four bytes after the eight bytes of the
  additional header offset are not 1 (second conjunct; the twelve bytes must be there); with
  version 1 it never fails with CorruptData (third conjunct). For the whole of
  \<open>unpack_internal\<close> (fourth conjunct): it fails with that error exactly when the integer
  at offset 19 is 1 and the minor version, which it reads 19 bytes after its starting
  position, is not 1; nothing after the header raises this error. The signature has eleven
  bytes, so when \<open>unpack_internal\<close> starts at position 0 the minor version is the integer
  at offset 19 itself and the error does not occur.
\<close>

theorem xp3_version_detection:
  "(23 \<le> io_size arc_io \<and> pos arc_io \<le> io_size arc_io \<longrightarrow>
      detect_version arc_io = Inr (if u32_at (buffer arc_io) 19 = 1 then 2 else 1, arc_io)) \<and>
   (pos arc_io + 12 \<le> io_size arc_io \<longrightarrow>
      (get_table_offset arc_io 2 = Inl (CorruptDataError ''Unexpected XP3 version'') \<longleftrightarrow>
         u32_at (buffer arc_io) (pos arc_io + 8) \<noteq> 1)) \<and>
   get_table_offset arc_io 1 \<noteq> Inl (CorruptDataError msg) \<and>
   (pos (io arc_file) + 23 \<le> io_size (io arc_file) \<longrightarrow>
      (snd (unpack_internal inflate convert filter_func arc_file) =
         Some (CorruptDataError ''Unexpected XP3 version'') \<longleftrightarrow>
       u32_at (buffer (io arc_file)) 19 = 1 \<and>
       u32_at (buffer (io arc_file)) (pos (io arc_file) + 19) \<noteq> 1))"
  using detect_version_result [of arc_io] get_table_offset_v2 [of arc_io]
    get_table_offset_v1 [of msg arc_io]
    unpack_internal_version_error [of arc_file inflate convert filter_func]
  by (simp add: avoids_def)

theorem xp3_version_detection_witness:
  "detect_version \<lparr>buffer = [0, 0, 0, 0, 0, 0, 0, 0, 0, 0, 0, 0, 0, 0, 0, 0, 0, 0, 0, 1, 0, 0, 0],
                    pos = 11\<rparr> =
     Inr (2, \<lparr>buffer = [0, 0, 0, 0, 0, 0, 0, 0, 0, 0, 0, 0, 0, 0, 0, 0, 0, 0, 0, 1, 0, 0, 0],
               pos = 11\<rparr>) \<and>
   get_table_offset \<lparr>buffer = [0, 0, 0, 0, 0, 0, 0, 0, 2, 0, 0, 0], pos = 0\<rparr> 2 =
     Inl (CorruptDataError ''Unexpected XP3 version'') \<and>
   snd (unpack_internal (\<lambda>b. None) (\<lambda>b. None) None
          \<lparr>name = ''a'',
             io = \<lparr>buffer = [0, 0, 0, 0, 0, 0, 0, 0, 0, 0, 0, 0, 0, 0, 0, 0, 0, 0, 0, 1, 0, 0, 0],
                    pos = 0\<rparr>\<rparr>) \<noteq>
     Some (CorruptDataError ''Unexpected XP3 version'')"
proof -
  let ?b = "[0, 0, 0, 0, 0, 0, 0, 0, 0, 0, 0, 0, 0, 0, 0, 0, 0, 0, 0, 1, 0, 0, 0 :: u8]"
  let ?c = "\<lparr>buffer = ?b, pos = 11\<rparr>"
  let ?d = "\<lparr>buffer = [0, 0, 0, 0, 0, 0, 0, 0, 2, 0, 0, 0 :: u8], pos = 0\<rparr>"
  let ?f = "\<lparr>name = ''a'', io = \<lparr>buffer = ?b, pos = 0\<rparr>\<rparr>"
  have u: "u32_at ?b 19 = 1" by (simp add: u32_at_def le_nat_def)
  have h1: "23 \<le> io_size ?c \<and> pos ?c \<le> io_size ?c" by (simp add: io_size_def)
  have h2: "pos ?d + 12 \<le> io_size ?d" by (simp add: io_size_def)
  have u2: "u32_at (buffer ?d) (pos ?d + 8) \<noteq> 1" by (simp add: u32_at_def le_nat_def)
  have h3: "pos (io ?f) + 23 \<le> io_size (io ?f)" by (simp add: io_size_def)
  from xp3_version_detection [of ?c "''m''" ?f "\<lambda>b. None" "\<lambda>b. None" None] h1 u
  have a: "detect_version ?c = Inr (2, ?c)" by simp
  from xp3_version_detection [of ?d "''m''" ?f "\<lambda>b. None" "\<lambda>b. None" None] h2 u2
  have b: "get_table_offset ?d 2 = Inl (CorruptDataError ''Unexpected XP3 version'')" by simp
  from xp3_version_detection [of ?c "''m''" ?f "\<lambda>b. None" "\<lambda>b. None" None] h3 u
  have c: "snd (unpack_internal (\<lambda>b. None) (\<lambda>b. None) None ?f) \<noteq>
     Some (CorruptDataError ''Unexpected XP3 version'')" by simp
  from a b c show ?thesis by simp
qed

subsection \<open>Entry records\<close>

lemma read_file_size_mismatch:
  assumes "read table_io (length file_magic) = Inr (file_magic, t1)"
    and "read_u64_le t1 = Inr (file_chunk_size, t2)"
    and "read_info_chunk convert t2 = Inr (info_chunk, t3)"
    and "read_data_from_segm_chunk inflate t3 arc_io = Inr (data, t4, a1)"
    and "read_key_from_adlr_chunk t4 = Inr (key, t5)"
    and "tell t5 - tell t2 \<noteq> unat file_chunk_size"
  shows "read_file inflate convert arc_io table_io filter_func =
           Inl (CorruptDataError ''Unexpected file data size'')"
  unfolding read_file_def Let_def
  using assms(6) by (simp only: assms(1-5) bind_e_simps prod.case simp_thms if_True if_False)

text \<open>
  Claim C6. When the \<open>File\<close> tag, its length and the three sub-chunks of an entry have been
  read and the number of table bytes the sub-chunks took differs from the declared length,
  \<open>read_file\<close> fails with CorruptData, and so does the loop of the unpack from that
  entry, whatever was saved before. The witness is an entry whose declared length, 61, is one
  byte smaller than the 62 bytes of its sub-chunks, alone in a table and inside a whole
  archive.
\<close>

theorem file_chunk_length_mismatch:
  assumes "read table_io (length file_magic) = Inr (file_magic, t1)"
    and "read_u64_le t1 = Inr (file_chunk_size, t2)"
    and "read_info_chunk convert t2 = Inr (info_chunk, t3)"
    and "read_data_from_segm_chunk inflate t3 arc_io = Inr (data, t4, a1)"
    and "read_key_from_adlr_chunk t4 = Inr (key, t5)"
    and "tell t5 - tell t2 \<noteq> unat file_chunk_size"
  shows "read_file inflate convert arc_io table_io filter_func =
           Inl (CorruptDataError ''Unexpected file data size'') \<and>
         unpack_loop inflate convert filter_func arc_io table_io saver =
           (saver, Some (CorruptDataError ''Unexpected file data size''))"
proof -
  have r: "read_file inflate convert arc_io table_io filter_func =
           Inl (CorruptDataError ''Unexpected file data size'')"
    using assms by (rule read_file_size_mismatch)
  from assms(1) have "tell table_io < io_size table_io"
    by (auto simp: read_def tell_def io_size_def file_magic_def split: if_splits)
  with r show ?thesis
    by (simp add: unpack_loop.simps [of inflate convert filter_func arc_io table_io])
qed

theorem file_chunk_length_mismatch_witness:
  "read_file (\<lambda>b. None) (\<lambda>b. Some []) \<lparr>buffer = [], pos = 0\<rparr>
       \<lparr>buffer = example_table, pos = 0\<rparr> None =
     Inl (CorruptDataError ''Unexpected file data size'') \<and>
   unpack_loop (\<lambda>b. None) (\<lambda>b. Some []) None \<lparr>buffer = [], pos = 0\<rparr>
       \<lparr>buffer = example_table, pos = 0\<rparr> [] =
     ([], Some (CorruptDataError ''Unexpected file data size'')) \<and>
   unpack_internal (\<lambda>b. None) (\<lambda>b. Some []) None
       \<lparr>name = ''a.xp3'', io = \<lparr>buffer = example_archive, pos = 0\<rparr>\<rparr> =
     ([], Some (CorruptDataError ''Unexpected file data size''))"
proof -
  let ?t = "\<lambda>p. \<lparr>buffer = example_table, pos = p\<rparr>"
  let ?a = "\<lparr>buffer = [] :: bstr, pos = 0 :: nat\<rparr>"
  have h1: "read (?t 0) (length file_magic) = Inr (file_magic, ?t 4)"
    by (simp add: read_def io_size_def file_magic_def example_table_def)
  have h2: "read_u64_le (?t 4) = Inr (61, ?t 12)"
    by (simp add: read_u64_le_def read_def io_size_def example_table_def le_nat_def)
  have h3: "read_info_chunk (\<lambda>b. Some []) (?t 12) =
              Inr (\<lparr>flags = 0, file_size_original = 0, file_size_compressed = 0,
                     info_name = []\<rparr>, ?t 46)"
    by (simp add: read_info_chunk_def read_u64_le_def read_u32_le_def read_u16_le_def read_def
          io_size_def info_magic_def convert_encoding_def example_table_def le_nat_def)
  have h4: "read_data_from_segm_chunk (\<lambda>b. None) (?t 46) ?a = Inr ([], ?t 58, ?a)"
    by (simp add: read_data_from_segm_chunk_def read_u64_le_def read_def io_size_def
          segm_magic_def example_table_def le_nat_def segm_loop.simps tell_def)
  have h5: "read_key_from_adlr_chunk (?t 58) = Inr (0, ?t 74)"
    by (simp add: read_key_from_adlr_chunk_def read_u64_le_def read_u32_le_def read_def
          io_size_def adlr_magic_def example_table_def le_nat_def)
  have h6: "tell (?t 74) - tell (?t 12) \<noteq> unat (61 :: u64)"
    by (simp add: tell_def)
  have u: "unpack_internal (\<lambda>b. None) (\<lambda>b. Some []) None
       \<lparr>name = ''a.xp3'', io = \<lparr>buffer = example_archive, pos = 0\<rparr>\<rparr> =
     ([], Some (CorruptDataError ''Unexpected file data size''))"
    by (simp add: unpack_internal_def skip_def detect_version_def get_table_offset_def seek_def
        read_raw_table_def read_u8_def read_u32_le_def read_u64_le_def read_def io_size_def
        tell_def xp3_magic_def example_archive_def le_nat_def Let_def
        unpack_loop.simps read_file_def file_magic_def
        read_info_chunk_def read_u16_le_def info_magic_def convert_encoding_def
        read_data_from_segm_chunk_def segm_magic_def segm_loop.simps
        read_key_from_adlr_chunk_def adlr_magic_def)
  from file_chunk_length_mismatch [OF h1 h2 h3 h4 h5 h6, where saver = "[]" and filter_func = None] u
  show ?thesis by simp
qed

subsection \<open>Segments\<close>

lemma seek_read_archive_bytes:
  "bind_e (seek a off) (\<lambda>a1. bind_e (read a1 n) f) =
   bind_e (archive_bytes (buffer a) off n) (\<lambda>d. f (d, a\<lparr>pos := off + n\<rparr>))"
  by (simp add: seek_def read_def archive_bytes_def io_size_def)


lemma result_data_simps [simp]:
  "result_data (Inl e) = Inl e"
  "result_data (Inr (d, t, a)) = Inr d"
  by (simp_all add: result_data_def)

lemma result_data_bind_e:
  "result_data (bind_e m f) = bind_e m (\<lambda>x. result_data (f x))"
  by (cases m) simp_all

lemma bind_e_assoc: "bind_e (bind_e m f) g = bind_e m (\<lambda>x. bind_e (f x) g)"
  by (cases m) simp_all

lemma segm_loop_spec:
  assumes "unat sz = 28 * n" and "pos table_io = initial_pos + 28 * j" and "j + k = n"
    and "initial_pos + 28 * n \<le> io_size table_io"
  shows "result_data (segm_loop inflate sz initial_pos table_io arc_io acc) =
           bind_e (concat_segments inflate (buffer arc_io)
                     (segm_records (buffer table_io) (pos table_io) k))
             (\<lambda>ds. Inr (acc @ ds))"
  using assms
proof (induction k arbitrary: j table_io arc_io acc)
  case 0
  then have "\<not> unat sz > tell table_io - initial_pos" by (simp add: tell_def)
  then show ?case
    by (simp add: segm_loop.simps [of inflate sz initial_pos table_io])
next
  case (Suc k)
  let ?p = "pos table_io"
  let ?tbl = "buffer table_io"
  let ?T = "\<lambda>d. table_io\<lparr>pos := ?p + d\<rparr>"
  obtain fl off orig comp where rec: "segm_record_at ?tbl ?p = (fl, off, orig, comp)"
    by (cases "segm_record_at ?tbl ?p") auto
  then have fl: "fl = u32_at ?tbl ?p" and off: "off = u64_at ?tbl (?p + 4)"
    and orig: "orig = u64_at ?tbl (?p + 12)" and comp: "comp = u64_at ?tbl (?p + 20)"
    by (simp_all add: segm_record_at_def)
  from Suc.prems have bound: "?p + 28 \<le> io_size table_io" by simp
  from Suc.prems have c: "unat sz > tell table_io - initial_pos" by (simp add: tell_def)
  from bound have r1: "read_u32_le table_io = Inr (fl, ?T 4)"
    by (simp add: read_u32_le_def read_def io_size_def fl u32_at_def)
  from bound have r2: "read_u64_le (?T 4) = Inr (off, ?T 12)"
    by (simp add: read_u64_le_def read_def io_size_def off u64_at_def)
  from bound have r3: "read_u64_le (?T 12) = Inr (orig, ?T 20)"
    by (simp add: read_u64_le_def read_def io_size_def orig u64_at_def)
  from bound have r4: "read_u64_le (?T 20) = Inr (comp, ?T 28)"
    by (simp add: read_u64_le_def read_def io_size_def comp u64_at_def)
  have IH: "result_data (segm_loop inflate sz initial_pos (?T 28) a acc') =
           bind_e (concat_segments inflate (buffer arc_io) (segm_records ?tbl (?p + 28) k))
             (\<lambda>ds. Inr (acc' @ ds))" if "buffer a = buffer arc_io" for a acc'
    using Suc.IH [of "?T 28" "Suc j" a acc'] Suc.prems that by (simp add: io_size_def)
  have step: "segm_loop inflate sz initial_pos table_io arc_io acc =
      bind_e (seek arc_io (unat off)) (\<lambda>a1.
        if fl AND 7 \<noteq> 0
        then bind_e (read a1 (unat comp)) (\<lambda>(data_compressed, a2).
             bind_e (zlib_inflate inflate data_compressed) (\<lambda>data_uncompressed.
             segm_loop inflate sz initial_pos (?T 28) a2 (acc @ data_uncompressed)))
        else bind_e (read a1 (unat orig)) (\<lambda>(d, a2).
             segm_loop inflate sz initial_pos (?T 28) a2 (acc @ d)))"
    by (subst segm_loop.simps) (simp only: c if_True r1 r2 r3 r4 bind_e_simps prod.case)
  show ?case
  proof (cases "fl AND 7 \<noteq> 0")
    case True
    then have "segm_loop inflate sz initial_pos table_io arc_io acc =
        bind_e (archive_bytes (buffer arc_io) (unat off) (unat comp)) (\<lambda>dc.
          bind_e (zlib_inflate inflate dc) (\<lambda>du.
            segm_loop inflate sz initial_pos (?T 28)
              (arc_io\<lparr>pos := unat off + unat comp\<rparr>) (acc @ du)))"
      by (simp add: step seek_read_archive_bytes)
    then have "result_data (segm_loop inflate sz initial_pos table_io arc_io acc) =
        bind_e (archive_bytes (buffer arc_io) (unat off) (unat comp)) (\<lambda>dc.
          bind_e (zlib_inflate inflate dc) (\<lambda>du.
            bind_e (concat_segments inflate (buffer arc_io) (segm_records ?tbl (?p + 28) k))
              (\<lambda>ds. Inr ((acc @ du) @ ds))))"
      by (simp add: result_data_bind_e IH)
    also have "\<dots> = bind_e (concat_segments inflate (buffer arc_io)
                     (segm_records ?tbl ?p (Suc k))) (\<lambda>ds. Inr (acc @ ds))"
      using True by (simp add: rec segment_data_def bind_e_assoc)
    finally show ?thesis .
  next
    case False
    then have "segm_loop inflate sz initial_pos table_io arc_io acc =
        bind_e (archive_bytes (buffer arc_io) (unat off) (unat orig)) (\<lambda>d.
            segm_loop inflate sz initial_pos (?T 28)
              (arc_io\<lparr>pos := unat off + unat orig\<rparr>) (acc @ d))"
      by (simp add: step seek_read_archive_bytes)
    then have "result_data (segm_loop inflate sz initial_pos table_io arc_io acc) =
        bind_e (archive_bytes (buffer arc_io) (unat off) (unat orig)) (\<lambda>d.
            bind_e (concat_segments inflate (buffer arc_io) (segm_records ?tbl (?p + 28) k))
              (\<lambda>ds. Inr ((acc @ d) @ ds)))"
      by (simp add: result_data_bind_e IH)
    also have "\<dots> = bind_e (concat_segments inflate (buffer arc_io)
                     (segm_records ?tbl ?p (Suc k))) (\<lambda>ds. Inr (acc @ ds))"
      using False by (simp add: rec segment_data_def bind_e_assoc)
    finally show ?thesis .
  qed
qed

text \<open>
  Claim C7. After the \<open>segm\<close> tag and the declared length have been read: a length that is
  not a multiple of 28 fails with CorruptData; a length of \<open>28 * k\<close> whose records the table
  holds gives the data that the spec describes, \<open>concat_segments\<close> over the \<open>k\<close>
  consecutive records, with the same failure when the archive lacks bytes or inflating fails.
\<close>

theorem segm_chunk_data:
  assumes "read table_io (length segm_magic) = Inr (segm_magic, t1)"
    and "read_u64_le t1 = Inr (segm_chunk_size, t2)"
  shows "(unat segm_chunk_size mod 28 \<noteq> 0 \<longrightarrow>
            read_data_from_segm_chunk inflate table_io arc_io =
              Inl (CorruptDataError ''Unexpected SEGM chunk size'')) \<and>
         (unat segm_chunk_size = 28 * k \<and> pos t2 + 28 * k \<le> io_size t2 \<longrightarrow>
            result_data (read_data_from_segm_chunk inflate table_io arc_io) =
              concat_segments inflate (buffer arc_io) (segm_records (buffer t2) (pos t2) k))"
proof (intro conjI impI)
  assume "unat segm_chunk_size mod 28 \<noteq> 0"
  then show "read_data_from_segm_chunk inflate table_io arc_io =
              Inl (CorruptDataError ''Unexpected SEGM chunk size'')"
    unfolding read_data_from_segm_chunk_def
    by (simp only: assms bind_e_simps prod.case simp_thms if_True if_False)
next
  assume h: "unat segm_chunk_size = 28 * k \<and> pos t2 + 28 * k \<le> io_size t2"
  then have m: "\<not> unat segm_chunk_size mod 28 \<noteq> 0" by simp
  have "read_data_from_segm_chunk inflate table_io arc_io =
          segm_loop inflate segm_chunk_size (tell t2) t2 arc_io []"
    unfolding read_data_from_segm_chunk_def
    by (simp only: assms bind_e_simps prod.case simp_thms if_True if_False m)
  moreover have "result_data (segm_loop inflate segm_chunk_size (tell t2) t2 arc_io []) =
      bind_e (concat_segments inflate (buffer arc_io) (segm_records (buffer t2) (pos t2) k))
        (\<lambda>ds. Inr ([] @ ds))"
    using h by (intro segm_loop_spec [where n = k and j = 0]) (simp_all add: tell_def)
  moreover have "bind_e x (\<lambda>ds. Inr ([] @ ds)) = x" for x :: "error + bstr"
    by (cases x) simp_all
  ultimately show "result_data (read_data_from_segm_chunk inflate table_io arc_io) =
              concat_segments inflate (buffer arc_io) (segm_records (buffer t2) (pos t2) k)"
    by simp
qed

theorem segm_chunk_data_witness:
  "result_data (read_data_from_segm_chunk (\<lambda>b. Some (rev b)) \<lparr>buffer = example_segm, pos = 0\<rparr>
       \<lparr>buffer = [10, 11, 12, 13], pos = 0\<rparr>) = Inr [11, 12, 12, 11, 10] \<and>
   read_data_from_segm_chunk (\<lambda>b. Some (rev b)) \<lparr>buffer = example_bad_segm, pos = 0\<rparr>
       \<lparr>buffer = [10, 11, 12, 13], pos = 0\<rparr> =
     Inl (CorruptDataError ''Unexpected SEGM chunk size'')"
proof -
  let ?t = "\<lambda>p. \<lparr>buffer = example_segm, pos = p\<rparr>"
  let ?b = "\<lambda>p. \<lparr>buffer = example_bad_segm, pos = p\<rparr>"
  let ?a = "\<lparr>buffer = [10, 11, 12, 13 :: u8], pos = 0 :: nat\<rparr>"
  have h1: "read (?t 0) (length segm_magic) = Inr (segm_magic, ?t 4)"
    by (simp add: read_def io_size_def segm_magic_def example_segm_def)
  have h2: "read_u64_le (?t 4) = Inr (56, ?t 12)"
    by (simp add: read_u64_le_def read_def io_size_def example_segm_def le_nat_def)
  have h3: "unat (56 :: u64) = 28 * Suc (Suc 0) \<and>
      pos (?t 12) + 28 * Suc (Suc 0) \<le> io_size (?t 12)"
    by (simp add: io_size_def example_segm_def)
  have g1: "read (?b 0) (length segm_magic) = Inr (segm_magic, ?b 4)"
    by (simp add: read_def io_size_def segm_magic_def example_bad_segm_def)
  have g2: "read_u64_le (?b 4) = Inr (10, ?b 12)"
    by (simp add: read_u64_le_def read_def io_size_def example_bad_segm_def le_nat_def)
  have g3: "unat (10 :: u64) mod 28 \<noteq> 0" by simp
  have c: "concat_segments (\<lambda>b. Some (rev b)) (buffer ?a)
             (segm_records (buffer (?t 12)) (pos (?t 12)) (Suc (Suc 0))) =
           Inr [11, 12, 12, 11, 10]"
    by (simp add: segm_record_at_def u32_at_def u64_at_def le_nat_def
          example_segm_def segment_data_def archive_bytes_def zlib_inflate_def)
  from segm_chunk_data [OF h1 h2, of "\<lambda>b. Some (rev b)" ?a "Suc (Suc 0)"] h3
  have "result_data (read_data_from_segm_chunk (\<lambda>b. Some (rev b)) (?t 0) ?a) =
          concat_segments (\<lambda>b. Some (rev b)) (buffer ?a)
             (segm_records (buffer (?t 12)) (pos (?t 12)) (Suc (Suc 0)))"
    by blast
  with c have a: "result_data (read_data_from_segm_chunk (\<lambda>b. Some (rev b)) (?t 0) ?a) =
             Inr [11, 12, 12, 11, 10]"
    by (simp only:)
  from segm_chunk_data [OF g1 g2, of "\<lambda>b. Some (rev b)" ?a 0] g3
  have b: "read_data_from_segm_chunk (\<lambda>b. Some (rev b)) (?b 0) ?a =
     Inl (CorruptDataError ''Unexpected SEGM chunk size'')"
    by blast
  from a b show ?thesis by (rule conjI)
qed

end
